theory Spec2Isabelle
  imports Main
begin

section \<open>The document tree\<close>

text \<open>
  The module works on a DOM subtree: text nodes and elements, every node an object with
  an identity. A node is modelled with that identity as a number; two references are the
  same object (\<open>===\<close> in the source) when the numbers are equal. An element has its tag
  name, its \<open>classList\<close> (the tokens of the class attribute, in order) and its
  \<open>childNodes\<close>.
\<close>

datatype node =
    TextNode nat string
  | Element nat string "string list" "node list"

text \<open>The host document: the root element and the supply of identities for created nodes.\<close>

record dom =
  root :: node
  next_id :: nat

type_synonym node_and_offset = "nat \<times> int"

fun node_id :: "node \<Rightarrow> nat" where
  "node_id (TextNode i v) = i"
| "node_id (Element i t c ks) = i"

fun childNodes :: "node \<Rightarrow> node list" where
  "childNodes (TextNode i v) = []"
| "childNodes (Element i t c ks) = ks"

fun is_text :: "node \<Rightarrow> bool" where
  "is_text (TextNode i v) = True"
| "is_text (Element i t c ks) = False"

fun ids :: "node \<Rightarrow> nat list" where
  "ids (TextNode i v) = [i]"
| "ids (Element i t c ks) = i # concat (map ids ks)"

fun first_some :: "'a option list \<Rightarrow> 'a option" where
  "first_some [] = None"
| "first_some (None # xs) = first_some xs"
| "first_some (Some x # xs) = Some x"

text \<open>\<open>n.nodeValue\<close>: the text of a text node, \<open>null\<close> (here \<open>None\<close>) for an element.\<close>

fun nodeValue :: "nat \<Rightarrow> node \<Rightarrow> string option" where
  "nodeValue n (TextNode i v) = (if i = n then Some v else None)"
| "nodeValue n (Element i t c ks) = (if i = n then None else first_some (map (nodeValue n) ks))"

fun find_node :: "nat \<Rightarrow> node \<Rightarrow> node option" where
  "find_node n (TextNode i v) = (if i = n then Some (TextNode i v) else None)"
| "find_node n (Element i t c ks) =
     (if i = n then Some (Element i t c ks) else first_some (map (find_node n) ks))"

text \<open>\<open>n.parentNode\<close>: the element that has \<open>n\<close> among its children.\<close>

fun parentNode :: "nat \<Rightarrow> node \<Rightarrow> node option" where
  "parentNode n (TextNode i v) = None"
| "parentNode n (Element i t c ks) =
     (if n \<in> set (map node_id ks) then Some (Element i t c ks)
      else first_some (map (parentNode n) ks))"

text \<open>
  The source mutates the parent object in place. The model reads the parent, computes the
  changed parent, and writes it back at its place in the tree.
\<close>

fun replace_node :: "nat \<Rightarrow> node \<Rightarrow> node \<Rightarrow> node" where
  "replace_node p new (TextNode i v) = (if i = p then new else TextNode i v)"
| "replace_node p new (Element i t c ks) =
     (if i = p then new else Element i t c (map (replace_node p new) ks))"

text \<open>
  The tree walker with the filter \<open>SHOW_TEXT\<close>: the text nodes below the root in document
  order. The root itself is never visited by \<open>nextNode()\<close>.
\<close>

fun text_nodes :: "node \<Rightarrow> (nat \<times> string) list" where
  "text_nodes (TextNode i v) = [(i, v)]"
| "text_nodes (Element i t c ks) = concat (map text_nodes ks)"

definition treeWalker :: "node \<Rightarrow> (nat \<times> string) list" where
  "treeWalker r = concat (map text_nodes (childNodes r))"

subsection \<open>The DOM operations the module calls, on one parent\<close>

fun insert_before :: "node \<Rightarrow> nat option \<Rightarrow> node list \<Rightarrow> node list" where
  "insert_before x r [] = [x]"
| "insert_before x r (k # ks) =
     (if r = Some (node_id k) then x # k # ks else k # insert_before x r ks)"

text \<open>
  \<open>parent.insertBefore(x, ref)\<close>; a \<open>null\<close> reference appends. The reference is always read
  from the same parent in the source, so the case of a reference that is not a child
  (where the DOM raises) does not arise; the list function appends there.
\<close>

fun insertBefore :: "node \<Rightarrow> node \<Rightarrow> nat option \<Rightarrow> node" where
  "insertBefore (Element i t c ks) x r = Element i t c (insert_before x r ks)"
| "insertBefore (TextNode i v) x r = TextNode i v"

fun appendChild :: "node \<Rightarrow> node \<Rightarrow> node" where
  "appendChild (Element i t c ks) x = Element i t c (ks @ [x])"
| "appendChild (TextNode i v) x = TextNode i v"

fun removeChild :: "node \<Rightarrow> nat \<Rightarrow> node" where
  "removeChild (Element i t c ks) n = Element i t c (filter (\<lambda>k. node_id k \<noteq> n) ks)"
| "removeChild (TextNode i v) n = TextNode i v"

fun child :: "nat \<Rightarrow> node list \<Rightarrow> node option" where
  "child n [] = None"
| "child n (k # ks) = (if node_id k = n then Some k else child n ks)"

fun update_child :: "nat \<Rightarrow> (node \<Rightarrow> node) \<Rightarrow> node \<Rightarrow> node" where
  "update_child n f (Element i t c ks) =
     Element i t c (map (\<lambda>k. if node_id k = n then f k else k) ks)"
| "update_child n f (TextNode i v) = TextNode i v"

fun set_value :: "string \<Rightarrow> node \<Rightarrow> node" where
  "set_value w (TextNode i v) = TextNode i w"
| "set_value w (Element i t c ks) = Element i t c ks"

text \<open>\<open>n.nodeValue = w\<close> for a child \<open>n\<close> of the parent.\<close>

definition set_nodeValue :: "node \<Rightarrow> nat \<Rightarrow> string \<Rightarrow> node" where
  "set_nodeValue p n w = update_child n (set_value w) p"

fun next_sibling :: "nat \<Rightarrow> node list \<Rightarrow> node option" where
  "next_sibling n [] = None"
| "next_sibling n [k] = None"
| "next_sibling n (k # k' # ks) =
     (if node_id k = n then Some k' else next_sibling n (k' # ks))"

fun previous_sibling :: "nat \<Rightarrow> node list \<Rightarrow> node option" where
  "previous_sibling n [] = None"
| "previous_sibling n [k] = None"
| "previous_sibling n (k # k' # ks) =
     (if node_id k' = n then Some k else previous_sibling n (k' # ks))"

definition nextSibling :: "node \<Rightarrow> nat \<Rightarrow> node option" where
  "nextSibling p n = next_sibling n (childNodes p)"

definition previousSibling :: "node \<Rightarrow> nat \<Rightarrow> node option" where
  "previousSibling p n = previous_sibling n (childNodes p)"

fun classList_add :: "string \<Rightarrow> node \<Rightarrow> node" where
  "classList_add cls (Element i t c ks) =
     Element i t (if cls \<in> set c then c else c @ [cls]) ks"
| "classList_add cls (TextNode i v) = TextNode i v"

fun classList_remove :: "string \<Rightarrow> node \<Rightarrow> node" where
  "classList_remove cls (Element i t c ks) = Element i t (filter (\<lambda>x. x \<noteq> cls) c) ks"
| "classList_remove cls (TextNode i v) = TextNode i v"

fun classList :: "node \<Rightarrow> string list" where
  "classList (Element i t c ks) = c"
| "classList (TextNode i v) = []"

text \<open>
  \<open>String.prototype.substring(a, b)\<close>: both indices are clamped to the string, and they
  are swapped when the first is the larger.
\<close>

definition substring :: "string \<Rightarrow> int \<Rightarrow> int \<Rightarrow> string" where
  "substring v a b =
     (let n = int (length v);
          a' = max 0 (min a n);
          b' = max 0 (min b n);
          lo = min a' b';
          hi = max a' b'
      in take (nat (hi - lo)) (drop (nat lo) v))"

section \<open>_findNodeAndOffsetGroups\<close>

text \<open>
  The groups under construction are the finished groups \<open>done\<close> and the group \<open>cur\<close> that
  the source's variable \<open>nodeAndOffsets\<close> points at (it is the last element of
  \<open>nodeAndOffsetGroups\<close> there).

  The inner \<open>while\<close> loop on one text node either returns from the whole function
  (\<open>Returned\<close>) or leaves the loop with the current search state (\<open>Searching\<close>).
\<close>

datatype scan =
    Returned "node_and_offset list list"
  | Searching int "int list" bool "node_and_offset list list" "node_and_offset list"

fun scan_node ::
  "nat \<Rightarrow> int \<Rightarrow> int \<Rightarrow> int \<Rightarrow> int list \<Rightarrow> bool \<Rightarrow>
   node_and_offset list list \<Rightarrow> node_and_offset list \<Rightarrow> scan" where
  "scan_node currentNode workerPosStart workerPosEnd position [] finding done cur =
     (if position \<ge> workerPosStart \<and> position \<le> workerPosEnd then
        (if finding
         then Returned (done @ [cur @ [(currentNode, position - workerPosStart)]] @ [[]])
         else Returned (done @ [cur @ [(currentNode, position - workerPosStart)]]))
      else Searching position [] finding done cur)"
| "scan_node currentNode workerPosStart workerPosEnd position (p # positions) finding done cur =
     (if position \<ge> workerPosStart \<and> position \<le> workerPosEnd then
        (if finding
         then scan_node currentNode workerPosStart workerPosEnd p positions False
                (done @ [cur @ [(currentNode, position - workerPosStart)]]) []
         else scan_node currentNode workerPosStart workerPosEnd p positions True
                done (cur @ [(currentNode, position - workerPosStart)]))
      else Searching position (p # positions) finding done cur)"

text \<open>
  The outer loop over the text nodes. \<open>lastNode\<close> is \<open>treeWalker.currentNode\<close> with the length
  of its value: the last node visited, or the root (whose \<open>nodeValue\<close> is \<open>null\<close>, length 0)
  when there is no text node. When the nodes are exhausted, one pair for the last node is
  pushed on the current group, whatever is still pending.
\<close>

fun walk ::
  "(nat \<times> string) list \<Rightarrow> nat \<times> int \<Rightarrow> int \<Rightarrow> int \<Rightarrow> int list \<Rightarrow> bool \<Rightarrow>
   node_and_offset list list \<Rightarrow> node_and_offset list \<Rightarrow> node_and_offset list list" where
  "walk [] lastNode workerPosStart position positions finding done cur = done @ [cur @ [lastNode]]"
| "walk ((currentNode, v) # rest) lastNode workerPosStart position positions finding done cur =
     (let nodeValueLength = int (length v);
          workerPosEnd = workerPosStart + nodeValueLength - 1;
          cur1 = (if finding \<and> position > workerPosEnd then cur @ [(currentNode, 0)] else cur)
      in case scan_node currentNode workerPosStart workerPosEnd position positions finding done cur1 of
           Returned groups \<Rightarrow> groups
         | Searching position' positions' finding' done' cur' \<Rightarrow>
             walk rest (currentNode, nodeValueLength) (workerPosStart + nodeValueLength)
               position' positions' finding' done' cur')"

fun selection_positions :: "(int \<times> int) list \<Rightarrow> int list" where
  "selection_positions [] = []"
| "selection_positions ((start, end) # ts) = start # end # selection_positions ts"

definition root_last :: "node \<Rightarrow> nat \<times> int" where
  "root_last r = (node_id r, case r of TextNode i v \<Rightarrow> int (length v) | Element i t c ks \<Rightarrow> 0)"

definition last_visited :: "node \<Rightarrow> nat \<times> int" where
  "last_visited r =
     (case treeWalker r of [] \<Rightarrow> root_last r
      | x # xs \<Rightarrow> (fst (last (x # xs)), int (length (snd (last (x # xs))))))"

text \<open>
  With no position at all, \<open>positions.shift()\<close> is \<open>undefined\<close> and every comparison with
  it is false: no node matches, and the single pair of the last node is the result.
\<close>

definition findNodeAndOffsetGroups :: "node \<Rightarrow> (int \<times> int) list \<Rightarrow> node_and_offset list list" where
  "findNodeAndOffsetGroups r textSelections =
     (case selection_positions textSelections of
        [] \<Rightarrow> [[last_visited r]]
      | position # positions \<Rightarrow>
          walk (treeWalker r) (root_last r) 0 position positions False [] [])"

section \<open>_applyToWholeNode and _applyToNode\<close>

text \<open>
  A result \<open>None\<close> is a \<open>TypeError\<close> of the source: a property read on \<open>null\<close> (the
  \<open>parentNode\<close> of a node without parent, the \<open>nodeValue\<close> of an element).
\<close>

definition applyToWholeNode :: "string \<Rightarrow> dom \<Rightarrow> nat \<Rightarrow> (dom \<times> nat) option" where
  "applyToWholeNode className st n =
     (case parentNode n (root st) of
        None \<Rightarrow> None
      | Some parent \<Rightarrow>
          if length (childNodes parent) = 1 then
            Some (st\<lparr>root := replace_node (node_id parent) (classList_add className parent) (root st)\<rparr>,
                  node_id parent)
          else
            (case child n (childNodes parent) of
               None \<Rightarrow> None
             | Some node \<Rightarrow>
                 let c = next_id st;
                     textNodeContainer = classList_add className (Element c ''span'' [] []);
                     parent1 = insertBefore parent textNodeContainer (Some n);
                     parent2 = update_child c (\<lambda>k. appendChild k node) (removeChild parent1 n)
                 in Some (\<lparr>root = replace_node (node_id parent) parent2 (root st), next_id = c + 1\<rparr>,
                          c)))"

definition applyToNode :: "string \<Rightarrow> dom \<Rightarrow> nat \<Rightarrow> int \<Rightarrow> int \<Rightarrow> (dom \<times> nat list) option" where
  "applyToNode className st n startOffset endOffset =
     (if startOffset = endOffset then Some (st, [])
      else
        (case nodeValue n (root st) of
           None \<Rightarrow> None
         | Some v \<Rightarrow>
             if startOffset = 0 \<and> endOffset = int (length v) then
               (case applyToWholeNode className st n of
                  None \<Rightarrow> None
                | Some (st', affectedNode) \<Rightarrow> Some (st', [affectedNode]))
             else
               (case parentNode n (root st) of
                  None \<Rightarrow> None
                | Some parent \<Rightarrow>
                    if startOffset = 0 then
                      let c = next_id st;
                          headNodeValue = substring v startOffset endOffset;
                          headTextNode = TextNode (c + 1) headNodeValue;
                          headNodeContainer =
                            appendChild (classList_add className (Element c ''span'' [] [])) headTextNode;
                          parent1 = insertBefore parent headNodeContainer (Some n);
                          originalTextNodeValueRemain = substring v endOffset (int (length v));
                          parent2 = set_nodeValue parent1 n originalTextNodeValueRemain
                      in Some (\<lparr>root = replace_node (node_id parent) parent2 (root st), next_id = c + 2\<rparr>,
                               [c])
                    else
                      let headNodeValue = substring v 0 startOffset;
                          parent1 = set_nodeValue parent n headNodeValue;
                          nextSiblingNode = map_option node_id (nextSibling parent1 n);
                          c = next_id st;
                          middleNodeValue = substring v startOffset endOffset;
                          middleTextNode = TextNode (c + 1) middleNodeValue;
                          middleNodeContainer =
                            appendChild (classList_add className (Element c ''span'' [] [])) middleTextNode;
                          parent2 = insertBefore parent1 middleNodeContainer nextSiblingNode
                      in if endOffset < int (length v) then
                           let tailTextNodeValue = substring v endOffset (int (length v));
                               tailTextNode = TextNode (c + 2) tailTextNodeValue;
                               parent3 = insertBefore parent2 tailTextNode nextSiblingNode
                           in Some (\<lparr>root = replace_node (node_id parent) parent3 (root st),
                                     next_id = c + 3\<rparr>, [c])
                         else
                           Some (\<lparr>root = replace_node (node_id parent) parent2 (root st),
                                  next_id = c + 2\<rparr>, [c]))))"

section \<open>applyToRanges\<close>

text \<open>
  The loop over the interior nodes, \<open>for (idx = length - 2; idx > 0; idx--)\<close>: the
  argument is \<open>idx\<close>. A node whose value is the line break is skipped.
\<close>

fun interior_loop ::
  "string \<Rightarrow> node_and_offset list \<Rightarrow> nat \<Rightarrow> dom \<Rightarrow> nat list \<Rightarrow> (dom \<times> nat list) option" where
  "interior_loop className nodeAndOffsets 0 st affectedNodes = Some (st, affectedNodes)"
| "interior_loop className nodeAndOffsets (Suc i) st affectedNodes =
     (if nodeValue (fst (nodeAndOffsets ! Suc i)) (root st) = Some [CHR 0x0A]
      then interior_loop className nodeAndOffsets i st affectedNodes
      else
        (case applyToWholeNode className st (fst (nodeAndOffsets ! Suc i)) of
           None \<Rightarrow> None
         | Some (st', node) \<Rightarrow>
             interior_loop className nodeAndOffsets i st' (affectedNodes @ [node])))"

text \<open>The body of the loop over the groups: one group, with its affected nodes reversed.\<close>

definition applyToGroup ::
  "string \<Rightarrow> dom \<Rightarrow> node_and_offset list \<Rightarrow> (dom \<times> nat list) option" where
  "applyToGroup className st nodeAndOffsets =
     (if length nodeAndOffsets = 2 \<and> fst (nodeAndOffsets ! 0) = fst (nodeAndOffsets ! 1) then
        (case applyToNode className st (fst (nodeAndOffsets ! 0))
                (snd (nodeAndOffsets ! 0)) (snd (nodeAndOffsets ! 1)) of
           None \<Rightarrow> None
         | Some (st', nodes) \<Rightarrow> Some (st', rev nodes))
      else if length nodeAndOffsets \<ge> 2 then
        (let tailIdx = length nodeAndOffsets - 1;
             tailNodeAndOffset = nodeAndOffsets ! tailIdx
         in case (if snd tailNodeAndOffset > 0
                  then applyToNode className st (fst tailNodeAndOffset) 0 (snd tailNodeAndOffset)
                  else Some (st, [])) of
              None \<Rightarrow> None
            | Some (st1, nodes1) \<Rightarrow>
                (case interior_loop className nodeAndOffsets (length nodeAndOffsets - 2) st1 nodes1 of
                   None \<Rightarrow> None
                 | Some (st2, nodes2) \<Rightarrow>
                     (case nodeValue (fst (nodeAndOffsets ! 0)) (root st2) of
                        None \<Rightarrow> None
                      | Some headValue \<Rightarrow>
                          (case applyToNode className st2 (fst (nodeAndOffsets ! 0))
                                  (snd (nodeAndOffsets ! 0)) (int (length headValue)) of
                             None \<Rightarrow> None
                           | Some (st3, nodes3) \<Rightarrow> Some (st3, rev (nodes2 @ nodes3))))))
      else Some (st, []))"

text \<open>
  The loop over the groups, \<open>for (idx = length - 1; idx >= 0; idx--)\<close>: the argument is the
  list of groups already reversed, so that its head is the group at \<open>idx\<close>.
\<close>

fun groups_loop ::
  "string \<Rightarrow> node_and_offset list list \<Rightarrow> dom \<Rightarrow> nat list list \<Rightarrow> (dom \<times> nat list list) option" where
  "groups_loop className [] st affectedNodeGroups = Some (st, affectedNodeGroups)"
| "groups_loop className (g # gs) st affectedNodeGroups =
     (case applyToGroup className st g of
        None \<Rightarrow> None
      | Some (st', affectedNodes) \<Rightarrow>
          groups_loop className gs st' (affectedNodeGroups @ [affectedNodes]))"

definition applyToRanges ::
  "string \<Rightarrow> dom \<Rightarrow> (int \<times> int) list \<Rightarrow> (dom \<times> nat list list) option" where
  "applyToRanges className st textSelections =
     (if length textSelections = 0 then Some (st, [])
      else
        (case groups_loop className (rev (findNodeAndOffsetGroups (root st) textSelections)) st [] of
           None \<Rightarrow> None
         | Some (st', affectedNodeGroups) \<Rightarrow> Some (st', rev affectedNodeGroups)))"

section \<open>clear and clearElement\<close>

text \<open>
  What \<open>clear\<close> and \<open>clearElement\<close> read from outside the tree. \<open>Node\<close> is a free variable
  of \<open>clearElement\<close>, it is neither a parameter of the constructor nor imported: the global
  object of a browser binds it to the DOM interface, Node.js with a document passed to the
  constructor does not, and reading it there is a \<open>ReferenceError\<close>.
  \<open>rootElement.querySelectorAll\<close> is the selector engine of the document.
\<close>

record environment =
  Node_bound :: bool
  selector_engine :: "string \<Rightarrow> node \<Rightarrow> nat list option"

text \<open>
  An identifier of CSS written without escapes and in ASCII: letters, digits, the
  underscore and the hyphen, starting with a letter or an underscore, or with a hyphen
  followed by one of these.
\<close>

definition name_start :: "char \<Rightarrow> bool" where
  "name_start c \<longleftrightarrow> c \<in> set ''abcdefghijklmnopqrstuvwxyzABCDEFGHIJKLMNOPQRSTUVWXYZ_''"

definition name_char :: "char \<Rightarrow> bool" where
  "name_char c \<longleftrightarrow> name_start c \<or> c \<in> set ''0123456789-''"

fun css_identifier :: "string \<Rightarrow> bool" where
  "css_identifier [] = False"
| "css_identifier (c # cs) =
     ((name_start c \<or> (c = CHR ''-'' \<and> cs \<noteq> [] \<and> name_start (hd cs))) \<and> list_all name_char cs)"

text \<open>
  The \<open>span\<close> elements below the root that have the class among their tokens, in document
  order. The root itself is not among them.
\<close>

fun span_elements :: "string \<Rightarrow> node \<Rightarrow> nat list" where
  "span_elements cls (TextNode i v) = []"
| "span_elements cls (Element i t c ks) =
     (if t = ''span'' \<and> cls \<in> set c then [i] else []) @ concat (map (span_elements cls) ks)"

definition matching_spans :: "string \<Rightarrow> node \<Rightarrow> nat list" where
  "matching_spans cls r = concat (map (span_elements cls) (childNodes r))"

text \<open>
  \<open>rootElement.querySelectorAll(selectors)\<close>. \<open>clear\<close> calls it with the string
  \<open>'span.' + className\<close>. When the class name is an identifier, this is the type selector
  \<open>span\<close> with one class selector, and the result is the list above. For any other class
  name the string is another selector (\<open>span.a.b\<close> asks for both classes) or none at all
  (\<open>span.md:bold\<close>, \<open>span.1x\<close>): the model does not follow the grammar of selectors, the
  answer is then the one of the engine of the environment, which may be an exception.
\<close>

definition querySelectorAll :: "environment \<Rightarrow> string \<Rightarrow> node \<Rightarrow> nat list option" where
  "querySelectorAll env selectors r =
     (if take 5 selectors = ''span.'' \<and> css_identifier (drop 5 selectors)
      then Some (matching_spans (drop 5 selectors) r)
      else selector_engine env selectors r)"

fun text_value :: "node \<Rightarrow> string" where
  "text_value (TextNode i v) = v"
| "text_value (Element i t c ks) = []"

text \<open>
  \<open>element.className\<close> is the class attribute, a string. The model holds the attribute as
  the list of its tokens; the string is the tokens joined by single spaces, the form in
  which every change through \<open>classList\<close> leaves the attribute.
\<close>

fun serialize :: "string list \<Rightarrow> string" where
  "serialize [] = []"
| "serialize [x] = x"
| "serialize (x # y # ys) = x @ '' '' @ serialize (y # ys)"

definition class_attribute :: "node \<Rightarrow> string" where
  "class_attribute element = serialize (classList element)"

text \<open>
  \<open>parentNode.insertBefore(textNode, element)\<close> moves the text node: it leaves the element
  and is inserted before it. The two merges are the bodies of the \<open>if\<close> statements on the
  previous and the next sibling.
\<close>

definition merge_previous :: "node \<Rightarrow> nat \<Rightarrow> node" where
  "merge_previous parent t =
     (case previousSibling parent t of
        Some (TextNode pi pv) \<Rightarrow>
          removeChild
            (set_nodeValue parent t
               (pv @ (case child t (childNodes parent) of Some k \<Rightarrow> text_value k | None \<Rightarrow> [])))
            pi
      | _ \<Rightarrow> parent)"

definition merge_next :: "node \<Rightarrow> nat \<Rightarrow> node" where
  "merge_next parent t =
     (case nextSibling parent t of
        Some (TextNode ni nv) \<Rightarrow>
          removeChild
            (set_nodeValue parent t
               ((case child t (childNodes parent) of Some k \<Rightarrow> text_value k | None \<Rightarrow> []) @ nv))
            ni
      | _ \<Rightarrow> parent)"

text \<open>
  \<open>clearElement\<close>. The condition \<open>element.className === this.className &&
  element.childNodes.length === 1 && element.firstChild.nodeType === Node.TEXT_NODE\<close> is
  evaluated from the left: its third operand, and with it \<open>Node\<close>, is read only when the
  first two hold. The conditions on the siblings read \<open>Node\<close> when the sibling is not
  \<open>null\<close>. The result \<open>None\<close> is the exception: the \<open>ReferenceError\<close> for \<open>Node\<close>, or the
  \<open>TypeError\<close> for a property of \<open>null\<close>.
\<close>

definition clearElement :: "environment \<Rightarrow> string \<Rightarrow> dom \<Rightarrow> nat \<Rightarrow> dom option" where
  "clearElement env className st e =
     (case find_node e (root st) of
        None \<Rightarrow> None
      | Some element \<Rightarrow>
          if class_attribute element = className \<and> length (childNodes element) = 1 \<and>
             \<not> Node_bound env then None
          else if class_attribute element = className \<and> length (childNodes element) = 1 \<and>
             is_text (hd (childNodes element)) then
            (case parentNode e (root st) of
               None \<Rightarrow> None
             | Some parent \<Rightarrow>
                 let textNode = hd (childNodes element);
                     t = node_id textNode;
                     parent0 = update_child e (\<lambda>k. removeChild k t) parent;
                     parent1 = insertBefore parent0 textNode (Some e);
                     parent2 = removeChild parent1 e
                 in if previousSibling parent2 t \<noteq> None \<and> \<not> Node_bound env then None
                    else
                      let parent3 = merge_previous parent2 t
                      in if nextSibling parent3 t \<noteq> None \<and> \<not> Node_bound env then None
                         else
                           let parent4 = merge_next parent3 t
                           in Some (st\<lparr>root := replace_node (node_id parent) parent4 (root st)\<rparr>))
          else
            Some (st\<lparr>root := replace_node e (classList_remove className element) (root st)\<rparr>))"

fun clear_loop :: "environment \<Rightarrow> string \<Rightarrow> nat list \<Rightarrow> dom \<Rightarrow> dom option" where
  "clear_loop env className [] st = Some st"
| "clear_loop env className (e # es) st =
     (case clearElement env className st e of
        None \<Rightarrow> None
      | Some st' \<Rightarrow> clear_loop env className es st')"

text \<open>
  \<open>clear\<close>: the loop \<open>for (idx = spanElementCount - 1; idx >= 0; idx--)\<close> runs over the
  static list from its end.
\<close>

definition clear :: "environment \<Rightarrow> string \<Rightarrow> dom \<Rightarrow> (dom \<times> nat) option" where
  "clear env className st =
     (case querySelectorAll env (''span.'' @ className) (root st) of
        None \<Rightarrow> None
      | Some spanElementList \<Rightarrow>
          let spanElementCount = length spanElementList
          in (case clear_loop env className (rev spanElementList) st of
                None \<Rightarrow> None
              | Some st' \<Rightarrow> Some (st', spanElementCount)))"

section \<open>What the properties speak about\<close>

text \<open>The text of the leaves below a node, in document order.\<close>

definition textContent :: "node \<Rightarrow> string" where
  "textContent r = concat (map snd (text_nodes r))"

text \<open>
  Object identity in the model: every node of the tree has its own number, created nodes
  get numbers not yet used, and the root is an element.
\<close>

definition wf :: "dom \<Rightarrow> bool" where
  "wf st \<longleftrightarrow> \<not> is_text (root st) \<and> distinct (ids (root st)) \<and> list_all (\<lambda>i. i < next_id st) (ids (root st))"

text \<open>
  The leaves in document order, each with its identity, its text, and whether the leaf lies
  in a container that carries the class (the flag \<open>inh\<close> says so for the ancestors above).
\<close>

fun leaves :: "string \<Rightarrow> bool \<Rightarrow> node \<Rightarrow> (nat \<times> string \<times> bool) list" where
  "leaves cls inh (TextNode i v) = [(i, v, inh)]"
| "leaves cls inh (Element i t c ks) = concat (map (leaves cls (inh \<or> cls \<in> set c)) ks)"

text \<open>
  The state in which the loop over the text nodes ends: \<open>Returned\<close> when the function
  returned from inside the loop, \<open>Searching\<close> with the offsets still pending (the current
  one and the queue) when the nodes were exhausted first. It is the loop of \<open>walk\<close> without
  the lines after it.
\<close>

fun walk_pending ::
  "(nat \<times> string) list \<Rightarrow> int \<Rightarrow> int \<Rightarrow> int list \<Rightarrow> bool \<Rightarrow>
   node_and_offset list list \<Rightarrow> node_and_offset list \<Rightarrow> scan" where
  "walk_pending [] workerPosStart position positions finding done cur =
     Searching position positions finding done cur"
| "walk_pending ((currentNode, v) # rest) workerPosStart position positions finding done cur =
     (let nodeValueLength = int (length v);
          workerPosEnd = workerPosStart + nodeValueLength - 1;
          cur1 = (if finding \<and> position > workerPosEnd then cur @ [(currentNode, 0)] else cur)
      in case scan_node currentNode workerPosStart workerPosEnd position positions finding done cur1 of
           Returned groups \<Rightarrow> Returned groups
         | Searching position' positions' finding' done' cur' \<Rightarrow>
             walk_pending rest (workerPosStart + nodeValueLength)
               position' positions' finding' done' cur')"

text \<open>
  The interior nodes of a group as the specification words them: every node strictly
  between the first and the last pair, from the last to the first, wrapped as a whole
  node unless its text is the line break.
\<close>

fun wrap_each :: "string \<Rightarrow> nat list \<Rightarrow> dom \<Rightarrow> nat list \<Rightarrow> (dom \<times> nat list) option" where
  "wrap_each cls [] st affectedNodes = Some (st, affectedNodes)"
| "wrap_each cls (n # ns) st affectedNodes =
     (if nodeValue n (root st) = Some [CHR 0x0A] then wrap_each cls ns st affectedNodes
      else
        (case applyToWholeNode cls st n of
           None \<Rightarrow> None
         | Some (st', a) \<Rightarrow> wrap_each cls ns st' (affectedNodes @ [a])))"

text \<open>The document of the module's tests: \<open><div>0123456789abcdefghij</div>\<close>.\<close>

definition example_doc :: dom where
  "example_doc = \<lparr>root = Element 0 ''div'' [] [TextNode 1 ''0123456789abcdefghij''], next_id = 2\<rparr>"

text \<open>The test document after \<open>applyToRanges\<close> for the range (3, 6) with the class \<open>foo\<close>.\<close>

definition styled_doc :: dom where
  "styled_doc =
     \<lparr>root = Element 0 ''div'' []
        [TextNode 1 ''012'', Element 2 ''span'' [''foo''] [TextNode 3 ''345''],
         TextNode 4 ''6789abcdefghij''],
      next_id = 5\<rparr>"

text \<open>Three text nodes, the middle one a line break.\<close>

definition lines_doc :: dom where
  "lines_doc =
     \<lparr>root = Element 0 ''div'' [] [TextNode 1 ''ab'', TextNode 2 [CHR 0x0A], TextNode 3 ''cd''],
      next_id = 4\<rparr>"

text \<open>The node that \<open>treeWalker.currentNode\<close> holds after a list of text nodes was visited.\<close>

fun last_of :: "(nat \<times> string) list \<Rightarrow> nat \<times> int \<Rightarrow> nat \<times> int" where
  "last_of [] l = l"
| "last_of (x # xs) l = (fst (last (x # xs)), int (length (snd (last (x # xs)))))"

section \<open>Notions used in the proofs\<close>

text \<open>
  What \<open>_applyToNode\<close> makes of one leaf \<open>(n, v, b)\<close>, as a list of leaves: \<open>c\<close> is the
  identity supply at the call, \<open>s\<close> and \<open>e\<close> are the offsets.
\<close>

definition pieces :: "nat \<Rightarrow> string \<Rightarrow> bool \<Rightarrow> nat \<Rightarrow> int \<Rightarrow> int \<Rightarrow> (nat \<times> string \<times> bool) list" where
  "pieces n v b c s e =
     (if s = e then [(n, v, b)]
      else if s = 0 \<and> e = int (length v) then [(n, v, True)]
      else if s = 0 then [(c + 1, substring v 0 e, True), (n, substring v e (int (length v)), b)]
      else (n, substring v 0 s, b) # (c + 1, substring v s e, True) #
           (if e < int (length v) then [(c + 2, substring v e (int (length v)), b)] else []))"

text \<open>
  The offsets of a list come in pairs with the first at most the second; a group is usable
  when its offsets are not negative, its nodes are text nodes of the tree once it has two
  pairs, and two pairs on the same node are in order.
\<close>

fun pairs_le :: "int list \<Rightarrow> bool" where
  "pairs_le (s # e # rest) = (s \<le> e \<and> pairs_le rest)"
| "pairs_le [s] = True"
| "pairs_le [] = True"

definition group_ok :: "nat set \<Rightarrow> node_and_offset list \<Rightarrow> bool" where
  "group_ok W g \<longleftrightarrow>
     (\<forall>x\<in>set g. 0 \<le> snd x) \<and> (2 \<le> length g \<longrightarrow> fst ` set g \<subseteq> W) \<and>
     (length g = 2 \<and> fst (g ! 0) = fst (g ! 1) \<longrightarrow> snd (g ! 0) \<le> snd (g ! 1))"

definition cur_ok :: "nat set \<Rightarrow> nat \<Rightarrow> int \<Rightarrow> bool \<Rightarrow> int \<Rightarrow> int list \<Rightarrow> node_and_offset list \<Rightarrow> bool" where
  "cur_ok V n bound finding pos poss cur \<longleftrightarrow>
     (if finding
      then cur \<noteq> [] \<and> (\<forall>x\<in>set cur. 0 \<le> snd x) \<and> fst ` set cur \<subseteq> V \<and> pairs_le poss \<and>
           (length cur = 1 \<and> fst (hd cur) = n \<longrightarrow> snd (hd cur) \<le> bound)
      else cur = [] \<and> pairs_le (pos # poss))"

text \<open>
  The elements of a tree in document order, each with its identity, its tag and its class
  list; the elements below the root; the nodes below a node.
\<close>

fun elements_all :: "node \<Rightarrow> (nat \<times> string \<times> string list) list" where
  "elements_all (TextNode i v) = []"
| "elements_all (Element i t c ks) = (i, t, c) # concat (map elements_all ks)"

definition elements_below :: "node \<Rightarrow> (nat \<times> string \<times> string list) list" where
  "elements_below r = concat (map elements_all (childNodes r))"

fun descendants :: "node \<Rightarrow> node list" where
  "descendants (TextNode i v) = []"
| "descendants (Element i t c ks) = concat (map (\<lambda>k. k # descendants k) ks)"

text \<open>
  The containers below the root that carry the class, whatever their tag; and the
  precondition of the module, that every element below the root is a \<open>span\<close>.
\<close>

definition carriers :: "string \<Rightarrow> node \<Rightarrow> nat list" where
  "carriers cls r = map fst (filter (\<lambda>x. cls \<in> set (snd (snd x))) (elements_below r))"

definition spans_below :: "node \<Rightarrow> bool" where
  "spans_below r = list_all (\<lambda>x. fst (snd x) = ''span'') (elements_below r)"

definition tagged :: "string \<Rightarrow> node \<Rightarrow> (nat \<times> string) set" where
  "tagged cls r = (\<lambda>x. (fst x, fst (snd x))) ` {x \<in> set (elements_below r). cls \<in> set (snd (snd x))}"

text \<open>
  Two text nodes next to each other among the children of one element; a tree is
  normalized when this occurs nowhere.
\<close>

fun adjacent_text :: "node list \<Rightarrow> bool" where
  "adjacent_text (a # b # ks) = ((is_text a \<and> is_text b) \<or> adjacent_text (b # ks))"
| "adjacent_text [a] = False"
| "adjacent_text [] = False"

fun normalized :: "node \<Rightarrow> bool" where
  "normalized (TextNode i v) = True"
| "normalized (Element i t c ks) = (\<not> adjacent_text ks \<and> list_all normalized ks)"

text \<open>
  The children of the parent after \<open>clearElement\<close> unwrapped a container whose only child
  was the text node \<open>tn\<close> with the text \<open>v\<close>, between the siblings \<open>pre\<close> and \<open>post\<close>: the
  text node takes the container's place, and a text sibling immediately before it and one
  immediately after it are merged into it.
\<close>

definition merged :: "node list \<Rightarrow> nat \<Rightarrow> string \<Rightarrow> node list \<Rightarrow> node list" where
  "merged pre tn v post =
     (if pre \<noteq> [] \<and> is_text (last pre) then butlast pre else pre) @
     TextNode tn ((if pre \<noteq> [] \<and> is_text (last pre) then text_value (last pre) else []) @ v @
                  (if post \<noteq> [] \<and> is_text (hd post) then text_value (hd post) else [])) #
     (if post \<noteq> [] \<and> is_text (hd post) then tl post else post)"

text \<open>
  The invariant of \<open>applyToRanges\<close>: the text nodes \<open>W\<close> stay in the tree, the text stays
  \<open>T\<close>, and, where asked for, every element below the root is a \<open>span\<close> (\<open>S\<close>) and the
  tree is normalized (\<open>N\<close>).
\<close>

definition keeps :: "nat set \<Rightarrow> string \<Rightarrow> bool \<Rightarrow> bool \<Rightarrow> dom \<Rightarrow> bool" where
  "keeps W T S N st \<longleftrightarrow>
     wf st \<and> W \<subseteq> fst ` set (text_nodes (root st)) \<and> textContent (root st) = T \<and>
     (S \<longrightarrow> spans_below (root st)) \<and> (N \<longrightarrow> normalized (root st))"

subsection \<open>Coverage\<close>

text \<open>
  The leaves with their text only, and for every character of the document, in document
  order, whether its leaf is styled: the leaf lies in a container that carries the class.
  The character at the global index \<open>k\<close> is the \<open>k\<close>-th element.
\<close>

definition leaf_texts :: "(nat \<times> string \<times> bool) list \<Rightarrow> (nat \<times> string) list" where
  "leaf_texts L = map (\<lambda>x. (fst x, fst (snd x))) L"

definition flags :: "(nat \<times> string \<times> bool) list \<Rightarrow> bool list" where
  "flags L = concat (map (\<lambda>x. replicate (length (fst (snd x))) (snd (snd x))) L)"

definition styled_chars :: "string \<Rightarrow> node \<Rightarrow> bool list" where
  "styled_chars cls r = flags (leaves cls False r)"

text \<open>
  For every character of the text nodes \<open>W\<close>, whether its text node has the line break
  as its whole value.
\<close>

definition line_breaks :: "(nat \<times> string) list \<Rightarrow> bool list" where
  "line_breaks W = concat (map (\<lambda>x. replicate (length (snd x)) (snd x = [CHR 0x0A])) W)"

text \<open>
  The length of the text of a list of text nodes.
\<close>

definition tlen :: "(nat \<times> string) list \<Rightarrow> int" where
  "tlen X = int (length (concat (map snd X)))"

text \<open>
  \<open>applyToRanges\<close> handles the groups from the last to the first, so that the tree is
  only changed from some global offset \<open>F\<close> on. The text nodes \<open>X\<close> of the tree agree
  with the original text nodes \<open>W\<close> before \<open>F\<close>: the nodes that end at or before \<open>F\<close>
  are the same, and the node that \<open>F\<close> cuts is still there, with the same characters
  before \<open>F\<close>.
\<close>

definition frontier :: "(nat \<times> string) list \<Rightarrow> int \<Rightarrow> (nat \<times> string) list \<Rightarrow> bool" where
  "frontier W F X \<longleftrightarrow>
     (\<forall>A B. W = A @ B \<and> tlen A \<le> F \<longrightarrow> (\<exists>B'. X = A @ B')) \<and>
     (\<forall>A h v B. W = A @ (h, v) # B \<and> tlen A < F \<and> F < tlen A + int (length v) \<longrightarrow>
        (\<exists>w B'. X = A @ (h, w) # B' \<and> take (nat (F - tlen A)) w = take (nat (F - tlen A)) v))"

definition struct :: "string \<Rightarrow> (nat \<times> string) list \<Rightarrow> int \<Rightarrow> dom \<Rightarrow> bool" where
  "struct cls W F st \<longleftrightarrow>
     wf st \<and> concat (map snd (text_nodes (root st))) = concat (map snd W) \<and>
     frontier W F (text_nodes (root st))"

text \<open>
  Every character that is styled in \<open>st\<close> is styled in \<open>st'\<close>; the characters from \<open>s\<close>
  to \<open>e\<close> that are not in a line-break node of \<open>W\<close> are styled.
\<close>

definition more_styled :: "string \<Rightarrow> dom \<Rightarrow> dom \<Rightarrow> bool" where
  "more_styled cls st st' \<longleftrightarrow> list_all2 (\<lambda>x y. x \<longrightarrow> y) (styled_chars cls (root st)) (styled_chars cls (root st'))"

definition covered :: "string \<Rightarrow> (nat \<times> string) list \<Rightarrow> int \<Rightarrow> int \<Rightarrow> dom \<Rightarrow> bool" where
  "covered cls W s e st \<longleftrightarrow>
     (\<forall>k. s \<le> int k \<and> int k < e \<and> \<not> line_breaks W ! k \<longrightarrow> styled_chars cls (root st) ! k)"

text \<open>
  A group \<open>g\<close> of the resolver stands for the range \<open>r\<close> of global offsets over the text
  nodes \<open>W\<close>: a group of at most one pair stands for an empty range; two pairs on one
  node; a head pair, one pair with the offset 0 for every node in between, and a tail pair
  on a later node; or, when the range ends with the text, the same with the last node
  once more, for its length.
\<close>

definition grp :: "(nat \<times> string) list \<Rightarrow> node_and_offset list \<Rightarrow> int \<times> int \<Rightarrow> bool" where
  "grp W g r \<longleftrightarrow>
     (length g \<le> 1 \<and> fst r = snd r \<and> snd r \<le> tlen W) \<or>
     (\<exists>A h v B a t. W = A @ (h, v) # B \<and> g = [(h, a), (h, t)] \<and> 0 \<le> a \<and> a \<le> t \<and>
        t \<le> int (length v) \<and> r = (tlen A + a, tlen A + t)) \<or>
     (\<exists>A h v M x u B a t. W = A @ (h, v) # M @ (x, u) # B \<and>
        g = (h, a) # map (\<lambda>m. (fst m, 0)) M @ [(x, t)] \<and> 0 \<le> a \<and> a < int (length v) \<and>
        0 \<le> t \<and> t \<le> int (length u) \<and> r = (tlen A + a, tlen (A @ (h, v) # M) + t)) \<or>
     (\<exists>A h v M x u a. W = A @ (h, v) # M @ [(x, u)] \<and>
        g = (h, a) # map (\<lambda>m. (fst m, 0)) (M @ [(x, u)]) @ [(x, int (length u))] \<and>
        0 \<le> a \<and> a < int (length v) \<and> r = (tlen A + a, tlen W))"

text \<open>
  The ranges \<open>R\<close> are in ascending order, do not overlap, and end at or before \<open>F\<close>.
\<close>

definition chain :: "(int \<times> int) list \<Rightarrow> int \<Rightarrow> bool" where
  "chain R F \<longleftrightarrow> sorted (selection_positions R @ [F])"

text \<open>
  The state of the resolver. \<open>opened V cur s\<close>: the group under construction started at
  the global offset \<open>s\<close> in one of the nodes \<open>V\<close> and has a pair for every node of \<open>V\<close>
  since. \<open>winv\<close>: the nodes \<open>V\<close> were visited, the finished groups stand for the first
  ranges \<open>R0\<close> of the request, and the pending offsets are those of the other ranges.
  \<open>res\<close>: the groups returned stand for ranges in ascending order, among them every
  range of the request that is not empty.
\<close>

definition opened :: "(nat \<times> string) list \<Rightarrow> node_and_offset list \<Rightarrow> int \<Rightarrow> bool" where
  "opened V cur s \<longleftrightarrow>
     (\<exists>A h v M a. V = A @ (h, v) # M \<and> cur = (h, a) # map (\<lambda>m. (fst m, 0)) M \<and>
        0 \<le> a \<and> a < int (length v) \<and> s = tlen A + a)"

definition winv ::
  "(nat \<times> string) list \<Rightarrow> (int \<times> int) list \<Rightarrow> (nat \<times> string) list \<Rightarrow> int \<Rightarrow> int list \<Rightarrow> bool \<Rightarrow>
   node_and_offset list list \<Rightarrow> node_and_offset list \<Rightarrow> bool" where
  "winv W sels V position positions finding done cur \<longleftrightarrow>
     (\<exists>R0 rem s. sels = R0 @ rem \<and> list_all2 (grp W) done R0 \<and>
        selection_positions rem = (if finding then [s] else []) @ position # positions \<and>
        tlen V \<le> position \<and> (if finding then opened V cur s else cur = []))"

definition res :: "(nat \<times> string) list \<Rightarrow> node_and_offset list list \<Rightarrow> (int \<times> int) list \<Rightarrow> bool" where
  "res W G sels \<longleftrightarrow>
     (\<exists>R. list_all2 (grp W) G R \<and> chain R (tlen W) \<and> (\<forall>x\<in>set sels. fst x < snd x \<longrightarrow> x \<in> set R))"

subsection \<open>Documents of the examples\<close>



text \<open>
  Two containers with the class \<open>foo\<close>, the first with this class only, the second with
  the class \<open>bar\<close> as well.
\<close>

definition two_span_doc :: dom where
  "two_span_doc =
     \<lparr>root = Element 0 ''div'' []
        [Element 1 ''span'' [''foo''] [TextNode 2 ''ab''],
         Element 3 ''span'' [''foo'', ''bar''] [TextNode 4 ''cd'']],
      next_id = 5\<rparr>"

section \<open>The tree: finding and replacing nodes\<close>

lemma first_some_split:
  "first_some (map f ks) = Some y \<Longrightarrow>
   \<exists>pre k post. ks = pre @ k # post \<and> f k = Some y \<and> (\<forall>x\<in>set pre. f x = None)"
proof (induction ks)
  case Nil
  then show ?case by simp
next
  case (Cons a ks)
  show ?case
  proof (cases "f a")
    case None
    with Cons.prems have "first_some (map f ks) = Some y" by simp
    from Cons.IH[OF this] obtain pre k post where
      "ks = pre @ k # post" "f k = Some y" "\<forall>x\<in>set pre. f x = None" by blast
    with None have "a # ks = (a # pre) @ k # post \<and> f k = Some y \<and> (\<forall>x\<in>set (a # pre). f x = None)"
      by simp
    then show ?thesis by blast
  next
    case (Some z)
    with Cons.prems have "z = y" by simp
    with Some have "a # ks = [] @ a # ks \<and> f a = Some y \<and> (\<forall>x\<in>set []. f x = None)" by simp
    then show ?thesis by blast
  qed
qed

lemma first_some_None: "(\<forall>x\<in>set ks. f x = None) \<Longrightarrow> first_some (map f ks) = None"
  by (induction ks) auto

lemma first_some_skip:
  "(\<forall>x\<in>set pre. f x = None) \<Longrightarrow> first_some (map f (pre @ ks)) = first_some (map f ks)"
  by (induction pre) auto

lemma node_id_in_ids: "node_id r \<in> set (ids r)"
  by (cases r) auto

lemma find_node_absent: "q \<notin> set (ids r) \<Longrightarrow> find_node q r = None"
proof (induction r)
  case (TextNode i v)
  then show ?case by auto
next
  case (Element i t c ks)
  then have "\<forall>k\<in>set ks. find_node q k = None" by auto
  then have "first_some (map (find_node q) ks) = None" by (rule first_some_None)
  with Element.prems show ?case by auto
qed

lemma find_node_id: "find_node q r = Some p \<Longrightarrow> node_id p = q"
proof (induction r)
  case (TextNode i v)
  then show ?case by (auto split: if_splits)
next
  case (Element i t c ks)
  show ?case
  proof (cases "i = q")
    case True
    with Element.prems show ?thesis by auto
  next
    case False
    with Element.prems have "first_some (map (find_node q) ks) = Some p" by simp
    from first_some_split[OF this] obtain pre k post where
      "ks = pre @ k # post" "find_node q k = Some p" by blast
    then have "k \<in> set ks" "find_node q k = Some p" by auto
    with Element.IH show ?thesis by blast
  qed
qed

lemma find_node_ids_subset: "find_node q r = Some p \<Longrightarrow> set (ids p) \<subseteq> set (ids r)"
proof (induction r)
  case (TextNode i v)
  then show ?case by (auto split: if_splits)
next
  case (Element i t c ks)
  show ?case
  proof (cases "i = q")
    case True
    with Element.prems show ?thesis by auto
  next
    case False
    with Element.prems have "first_some (map (find_node q) ks) = Some p" by simp
    from first_some_split[OF this] obtain pre k post where
      "ks = pre @ k # post" "find_node q k = Some p" by blast
    then have "k \<in> set ks" "find_node q k = Some p" by auto
    with Element.IH have "set (ids p) \<subseteq> set (ids k)" by blast
    with \<open>k \<in> set ks\<close> show ?thesis by auto
  qed
qed

lemma replace_node_absent: "q \<notin> set (ids r) \<Longrightarrow> replace_node q x r = r"
proof (induction r)
  case (TextNode i v)
  then show ?case by auto
next
  case (Element i t c ks)
  then have "map (replace_node q x) ks = ks" by (auto intro: map_idI)
  with Element.prems show ?case by auto
qed

text \<open>The one child that holds the node, with distinct identities.\<close>

lemma find_child_split:
  assumes d: "distinct (ids (Element i t c ks))" and ne: "i \<noteq> q"
    and f: "find_node q (Element i t c ks) = Some p"
  shows "\<exists>pre k post. ks = pre @ k # post \<and> find_node q k = Some p \<and>
           (\<forall>x. map (replace_node q x) ks = pre @ replace_node q x k # post)"
proof -
  from f ne have "first_some (map (find_node q) ks) = Some p" by simp
  from first_some_split[OF this] obtain pre k post where
    ks: "ks = pre @ k # post" and fk: "find_node q k = Some p" by blast
  have qk: "q \<in> set (ids k)"
    using fk find_node_absent by fastforce
  from d ks have dk: "distinct (concat (map ids pre) @ ids k @ concat (map ids post))" by simp
  have "\<forall>y\<in>set pre. q \<notin> set (ids y)" using dk qk by auto
  then have pre: "\<And>x. map (replace_node q x) pre = pre"
    by (auto intro: map_idI simp: replace_node_absent)
  have "\<forall>y\<in>set post. q \<notin> set (ids y)" using dk qk by auto
  then have post: "\<And>x. map (replace_node q x) post = post"
    by (auto intro: map_idI simp: replace_node_absent)
  show ?thesis using ks fk pre post by auto
qed

lemma leaves_context:
  "distinct (ids r) \<Longrightarrow> find_node q r = Some p \<Longrightarrow>
   \<exists>A B inh'. \<forall>x. leaves cls inh (replace_node q x r) = A @ leaves cls inh' x @ B"
proof (induction r arbitrary: inh)
  case (TextNode i v)
  then have "\<forall>x. leaves cls inh (replace_node q x (TextNode i v)) = [] @ leaves cls inh x @ []"
    by (auto split: if_splits)
  then show ?case by blast
next
  case (Element i t c ks)
  show ?case
  proof (cases "i = q")
    case True
    then have "\<forall>x. leaves cls inh (replace_node q x (Element i t c ks)) = [] @ leaves cls inh x @ []"
      by simp
    then show ?thesis by blast
  next
    case False
    from find_child_split[OF Element.prems(1) False Element.prems(2)] obtain pre k post where
      ks: "ks = pre @ k # post" and fk: "find_node q k = Some p"
      and rp: "\<And>x. map (replace_node q x) ks = pre @ replace_node q x k # post" by blast
    have "distinct (ids k)" using Element.prems(1) ks by auto
    have "k \<in> set ks" using ks by simp
    from Element.IH[of k "inh \<or> cls \<in> set c", OF this \<open>distinct (ids k)\<close> fk] obtain A B inh' where
      ih: "\<And>x. leaves cls (inh \<or> cls \<in> set c) (replace_node q x k) = A @ leaves cls inh' x @ B"
      by blast
    let ?f = "leaves cls (inh \<or> cls \<in> set c)"
    have "\<forall>x. leaves cls inh (replace_node q x (Element i t c ks)) =
            (concat (map ?f pre) @ A) @ leaves cls inh' x @ (B @ concat (map ?f post))"
      using False rp ih by simp
    then show ?thesis by blast
  qed
qed

lemma replace_node_self:
  "distinct (ids r) \<Longrightarrow> find_node q r = Some p \<Longrightarrow> replace_node q p r = r"
proof (induction r)
  case (TextNode i v)
  then show ?case by (auto split: if_splits)
next
  case (Element i t c ks)
  show ?case
  proof (cases "i = q")
    case True
    with Element.prems show ?thesis by auto
  next
    case False
    from find_child_split[OF Element.prems(1) False Element.prems(2)] obtain pre k post where
      ks: "ks = pre @ k # post" and fk: "find_node q k = Some p"
      and rp: "\<And>x. map (replace_node q x) ks = pre @ replace_node q x k # post" by blast
    have "distinct (ids k)" using Element.prems(1) ks by auto
    with Element.IH[of k] ks fk have "replace_node q p k = k" by auto
    with rp[of p] ks False show ?thesis by simp
  qed
qed

lemma leaves_replace:
  assumes "distinct (ids r)" "find_node q r = Some p"
  shows "\<exists>A B inh'. leaves cls inh r = A @ leaves cls inh' p @ B \<and>
           (\<forall>x. leaves cls inh (replace_node q x r) = A @ leaves cls inh' x @ B)"
proof -
  from leaves_context[OF assms] obtain A B inh' where
    c: "\<And>x. leaves cls inh (replace_node q x r) = A @ leaves cls inh' x @ B" by blast
  from c[of p] replace_node_self[OF assms] have "leaves cls inh r = A @ leaves cls inh' p @ B"
    by simp
  with c show ?thesis by blast
qed

lemma ids_context:
  "distinct (ids r) \<Longrightarrow> find_node q r = Some p \<Longrightarrow>
   \<exists>A B. \<forall>x. ids (replace_node q x r) = A @ ids x @ B"
proof (induction r)
  case (TextNode i v)
  then have "\<forall>x. ids (replace_node q x (TextNode i v)) = [] @ ids x @ []"
    by (auto split: if_splits)
  then show ?case by blast
next
  case (Element i t c ks)
  show ?case
  proof (cases "i = q")
    case True
    then have "\<forall>x. ids (replace_node q x (Element i t c ks)) = [] @ ids x @ []"
      by simp
    then show ?thesis by blast
  next
    case False
    from find_child_split[OF Element.prems(1) False Element.prems(2)] obtain pre k post where
      ks: "ks = pre @ k # post" and fk: "find_node q k = Some p"
      and rp: "\<And>x. map (replace_node q x) ks = pre @ replace_node q x k # post" by blast
    have "distinct (ids k)" using Element.prems(1) ks by auto
    have "k \<in> set ks" using ks by simp
    from Element.IH[of k, OF this \<open>distinct (ids k)\<close> fk] obtain A B where
      ih: "\<And>x. ids (replace_node q x k) = A @ ids x @ B"
      by blast
    have "\<forall>x. ids (replace_node q x (Element i t c ks)) =
            (i # concat (map ids pre) @ A) @ ids x @ (B @ concat (map ids post))"
      using False rp ih by simp
    then show ?thesis by blast
  qed
qed

lemma ids_replace:
  assumes "distinct (ids r)" "find_node q r = Some p"
  shows "\<exists>A B. ids r = A @ ids p @ B \<and> (\<forall>x. ids (replace_node q x r) = A @ ids x @ B)"
proof -
  from ids_context[OF assms] obtain A B where
    c: "\<And>x. ids (replace_node q x r) = A @ ids x @ B" by blast
  from c[of p] replace_node_self[OF assms] have "ids r = A @ ids p @ B"
    by simp
  with c show ?thesis by blast
qed

lemma parentNode_find:
  "distinct (ids r) \<Longrightarrow> parentNode n r = Some p \<Longrightarrow>
   find_node (node_id p) r = Some p \<and> n \<in> node_id ` set (childNodes p)"
proof (induction r)
  case (TextNode i v)
  then show ?case by simp
next
  case (Element i t c ks)
  show ?case
  proof (cases "n \<in> set (map node_id ks)")
    case True
    with Element.prems show ?thesis by auto
  next
    case False
    with Element.prems have "first_some (map (parentNode n) ks) = Some p" by simp
    from first_some_split[OF this] obtain pre k post where
      ks: "ks = pre @ k # post" and pk: "parentNode n k = Some p"
      and none: "\<forall>x\<in>set pre. parentNode n x = None" by blast
    have dk: "distinct (ids k)" using Element.prems(1) ks by auto
    from Element.IH[of k, OF _ dk pk] ks have
      fk: "find_node (node_id p) k = Some p" and ch: "n \<in> node_id ` set (childNodes p)" by auto
    have pk_in: "node_id p \<in> set (ids k)" using fk find_node_absent by fastforce
    have "\<forall>x\<in>set pre. node_id p \<notin> set (ids x)" using Element.prems(1) ks pk_in by auto
    then have "\<forall>x\<in>set pre. find_node (node_id p) x = None" by (simp add: find_node_absent)
    then have "first_some (map (find_node (node_id p)) ks) = Some p"
      using ks fk first_some_skip[of pre "find_node (node_id p)" "k # post"] by simp
    moreover have "node_id p \<noteq> i" using Element.prems(1) ks pk_in by auto
    ultimately show ?thesis using ch by simp
  qed
qed

section \<open>The DOM operations on the children of one parent\<close>

lemma insert_before_at:
  "n \<notin> node_id ` set pre \<Longrightarrow> node_id k = n \<Longrightarrow>
   insert_before x (Some n) (pre @ k # post) = pre @ x # k # post"
  by (induction pre) auto

lemma insert_before_null: "insert_before x None ks = ks @ [x]"
  by (induction ks) auto

lemma next_sibling_at:
  "n \<notin> node_id ` set pre \<Longrightarrow> node_id k = n \<Longrightarrow>
   next_sibling n (pre @ k # post) = (case post of [] \<Rightarrow> None | y # ys \<Rightarrow> Some y)"
proof (induction pre)
  case Nil
  then show ?case by (cases post) auto
next
  case (Cons a pre)
  then show ?case by (cases pre) auto
qed

lemma previous_sibling_none:
  "n \<notin> node_id ` set (tl ks) \<Longrightarrow> previous_sibling n ks = None"
  by (induction n ks rule: previous_sibling.induct) auto

lemma previous_sibling_at:
  "n \<notin> node_id ` set pre \<Longrightarrow> n \<notin> node_id ` set post \<Longrightarrow> node_id k = n \<Longrightarrow>
   previous_sibling n (pre @ k # post) = (if pre = [] then None else Some (last pre))"
proof (induction pre)
  case Nil
  then show ?case by (simp add: previous_sibling_none)
next
  case (Cons a pre)
  then show ?case by (cases pre) auto
qed

lemma child_at:
  "n \<notin> node_id ` set pre \<Longrightarrow> node_id k = n \<Longrightarrow> child n (pre @ k # post) = Some k"
  by (induction pre) auto

lemma map_update_absent:
  "n \<notin> node_id ` set xs \<Longrightarrow> map (\<lambda>k. if node_id k = n then f k else k) xs = xs"
  by (induction xs) auto

lemma filter_remove_absent:
  "n \<notin> node_id ` set xs \<Longrightarrow> filter (\<lambda>k. node_id k \<noteq> n) xs = xs"
  by (induction xs) auto

lemma map_update_at:
  "n \<notin> node_id ` set pre \<Longrightarrow> n \<notin> node_id ` set post \<Longrightarrow> node_id k = n \<Longrightarrow>
   map (\<lambda>k. if node_id k = n then f k else k) (pre @ k # post) = pre @ f k # post"
  by (simp add: map_update_absent)

lemma filter_remove_at:
  "n \<notin> node_id ` set pre \<Longrightarrow> n \<notin> node_id ` set post \<Longrightarrow> node_id k = n \<Longrightarrow>
   filter (\<lambda>k. node_id k \<noteq> n) (pre @ k # post) = pre @ post"
  by (simp add: filter_remove_absent)

lemma distinct_child_ids: "distinct (concat (map ids ks)) \<Longrightarrow> distinct (map node_id ks)"
proof (induction ks)
  case Nil
  then show ?case by simp
next
  case (Cons k ks)
  have "node_id k \<notin> node_id ` set ks"
  proof
    assume "node_id k \<in> node_id ` set ks"
    then obtain y where y: "y \<in> set ks" "node_id y = node_id k" by auto
    have "node_id y \<in> set (ids y)" by (rule node_id_in_ids)
    with y have "node_id k \<in> set (concat (map ids ks))" by auto
    moreover have "node_id k \<in> set (ids k)" by (rule node_id_in_ids)
    ultimately show False using Cons.prems by auto
  qed
  with Cons show ?case by auto
qed

lemma find_node_distinct:
  assumes "distinct (ids r)" "find_node q r = Some p"
  shows "distinct (ids p)"
proof -
  from ids_replace[OF assms] obtain A B where "ids r = A @ ids p @ B" by blast
  with assms(1) show ?thesis by simp
qed

lemma child_split:
  assumes "distinct (map node_id ks)" "n \<in> node_id ` set ks"
  shows "\<exists>pre k post. ks = pre @ k # post \<and> node_id k = n \<and>
           n \<notin> node_id ` set pre \<and> n \<notin> node_id ` set post"
proof -
  from assms(2) obtain k where "k \<in> set ks" "node_id k = n" by auto
  then obtain pre post where ks: "ks = pre @ k # post" by (auto dest: split_list)
  with assms(1) \<open>node_id k = n\<close> have "n \<notin> node_id ` set pre \<and> n \<notin> node_id ` set post" by auto
  with ks \<open>node_id k = n\<close> show ?thesis by blast
qed

text \<open>What wf gives for a parent found in the tree.\<close>

lemma wf_parent:
  assumes "wf st" "parentNode n (root st) = Some (Element p t c ks)"
  shows "find_node p (root st) = Some (Element p t c ks)"
    and "distinct (map node_id ks)"
    and "n \<in> node_id ` set ks"
    and "\<forall>i\<in>set (ids (Element p t c ks)). i < next_id st"
    and "distinct (ids (Element p t c ks))"
proof -
  from assms(1) have d: "distinct (ids (root st))" by (simp add: wf_def)
  from parentNode_find[OF d assms(2)] show f: "find_node p (root st) = Some (Element p t c ks)"
    and "n \<in> node_id ` set ks" by auto
  from find_node_distinct[OF d f] show dp: "distinct (ids (Element p t c ks))" .
  then show "distinct (map node_id ks)" by (simp add: distinct_child_ids)
  from find_node_ids_subset[OF f] assms(1)
  show "\<forall>i\<in>set (ids (Element p t c ks)). i < next_id st"
    by (auto simp: wf_def list_all_iff)
qed

lemma fresh_not_child:
  assumes "\<forall>i\<in>set (ids (Element p t c ks)). i < m" "m \<le> x"
  shows "x \<notin> node_id ` set ks"
proof
  assume "x \<in> node_id ` set ks"
  then obtain k where k: "k \<in> set ks" "node_id k = x" by auto
  have "node_id k \<in> set (ids k)" by (rule node_id_in_ids)
  with k have "x \<in> set (ids (Element p t c ks))" by auto
  with assms(1) have "x < m" by blast
  with assms(2) show False by simp
qed

lemma applyToWholeNode_single:
  assumes "wf st" "parentNode n (root st) = Some (Element p t c ks)" "length ks = 1"
  shows "applyToWholeNode cls st n =
           Some (st\<lparr>root := replace_node p (Element p t (if cls \<in> set c then c else c @ [cls]) ks) (root st)\<rparr>, p)"
  using assms by (simp add: applyToWholeNode_def)

lemma applyToWholeNode_wrap:
  assumes w: "wf st" and pn: "parentNode n (root st) = Some (Element p t c ks)"
    and len: "length ks \<noteq> 1"
  shows "\<exists>pre node post. ks = pre @ node # post \<and> node_id node = n \<and>
           applyToWholeNode cls st n =
             Some (\<lparr>root = replace_node p
                      (Element p t c (pre @ Element (next_id st) ''span'' [cls] [node] # post)) (root st),
                    next_id = next_id st + 1\<rparr>, next_id st)"
proof -
  note wp = wf_parent[OF w pn]
  from child_split[OF wp(2) wp(3)] obtain pre node post where
    ks: "ks = pre @ node # post" and nid: "node_id node = n"
    and npre: "n \<notin> node_id ` set pre" and npost: "n \<notin> node_id ` set post" by blast
  let ?c = "next_id st"
  let ?cont = "Element ?c ''span'' [cls] []"
  have fresh: "?c \<notin> node_id ` set ks" using fresh_not_child[OF wp(4)] by simp
  then have cpre: "?c \<notin> node_id ` set pre" and cpost: "?c \<notin> node_id ` set post" and cn: "?c \<noteq> n"
    using ks nid by auto
  have ch: "child n ks = Some node" using ks child_at[OF npre nid] by simp
  have ib: "insert_before ?cont (Some n) ks = pre @ ?cont # node # post"
    using ks insert_before_at[OF npre nid] by simp
  have rm: "filter (\<lambda>k. node_id k \<noteq> n) (pre @ ?cont # node # post) = pre @ ?cont # post"
    using npre npost nid cn by (simp add: filter_remove_absent)
  have up: "map (\<lambda>k. if node_id k = ?c then appendChild k node else k) (pre @ ?cont # post)
              = pre @ Element ?c ''span'' [cls] [node] # post"
    using map_update_at[OF cpre cpost, of ?cont "\<lambda>k. appendChild k node"] by simp
  have "applyToWholeNode cls st n =
          Some (\<lparr>root = replace_node p
                   (Element p t c (pre @ Element ?c ''span'' [cls] [node] # post)) (root st),
                 next_id = ?c + 1\<rparr>, ?c)"
    using pn len ch ib rm up by (simp add: applyToWholeNode_def Let_def)
  with ks nid show ?thesis by blast
qed

lemma nodeValue_absent: "n \<notin> set (ids r) \<Longrightarrow> nodeValue n r = None"
proof (induction r)
  case (TextNode i v)
  then show ?case by auto
next
  case (Element i t c ks)
  then have "\<forall>k\<in>set ks. nodeValue n k = None" by auto
  then have "first_some (map (nodeValue n) ks) = None" by (rule first_some_None)
  then show ?case by simp
qed

lemma parentNode_absent: "n \<notin> set (ids r) \<Longrightarrow> parentNode n r = None"
proof (induction r)
  case (TextNode i v)
  then show ?case by auto
next
  case (Element i t c ks)
  then have "\<forall>k\<in>set ks. parentNode n k = None" by auto
  then have "first_some (map (parentNode n) ks) = None" by (rule first_some_None)
  moreover have "n \<notin> node_id ` set ks"
  proof
    assume "n \<in> node_id ` set ks"
    then obtain k where "k \<in> set ks" "node_id k = n" by auto
    with node_id_in_ids[of k] Element.prems show False by auto
  qed
  ultimately show ?case by simp
qed

lemma text_nodes_ids: "fst ` set (text_nodes r) \<subseteq> set (ids r)"
proof (induction r)
  case (TextNode i v)
  then show ?case by simp
next
  case (Element i t c ks)
  then show ?case by fastforce
qed

lemma text_node_parent_aux:
  "distinct (ids r) \<Longrightarrow> (n, v) \<in> set (text_nodes r) \<Longrightarrow>
   nodeValue n r = Some v \<and>
   (\<not> is_text r \<longrightarrow> (\<exists>p' t' c' pre' post'. parentNode n r = Some (Element p' t' c' (pre' @ TextNode n v # post'))))"
proof (induction r)
  case (TextNode i v')
  then show ?case by simp
next
  case (Element i t c ks)
  from Element.prems(2) obtain k where kin: "k \<in> set ks" and nk: "(n, v) \<in> set (text_nodes k)"
    by auto
  from kin obtain pre post where ks: "ks = pre @ k # post" by (auto dest: split_list)
  have d: "distinct (concat (map ids pre) @ ids k @ concat (map ids post))" and ni: "i \<notin> set (ids k)"
    using Element.prems(1) ks by auto
  have dk: "distinct (ids k)" using d by simp
  have nin: "n \<in> set (ids k)" using nk text_nodes_ids[of k] by force
  have npre: "\<forall>x\<in>set pre. n \<notin> set (ids x)" using d nin by auto
  have npost: "\<forall>x\<in>set post. n \<notin> set (ids x)" using d nin by auto
  have ne: "i \<noteq> n" using ni nin by auto
  from Element.IH[OF kin dk nk] have nvk: "nodeValue n k = Some v"
    and pk: "\<not> is_text k \<longrightarrow> (\<exists>p' t' c' pre' post'. parentNode n k = Some (Element p' t' c' (pre' @ TextNode n v # post')))"
    by auto
  have "\<forall>x\<in>set pre. nodeValue n x = None" using npre by (simp add: nodeValue_absent)
  then have nv: "nodeValue n (Element i t c ks) = Some v"
    using ks nvk ne first_some_skip[of pre "nodeValue n" "k # post"] by simp
  have idpre: "n \<notin> node_id ` set pre"
  proof
    assume "n \<in> node_id ` set pre"
    then obtain y where "y \<in> set pre" "node_id y = n" by auto
    with node_id_in_ids[of y] npre show False by auto
  qed
  have idpost: "n \<notin> node_id ` set post"
  proof
    assume "n \<in> node_id ` set post"
    then obtain y where "y \<in> set post" "node_id y = n" by auto
    with node_id_in_ids[of y] npost show False by auto
  qed
  have "\<exists>p' t' c' pre' post'. parentNode n (Element i t c ks) = Some (Element p' t' c' (pre' @ TextNode n v # post'))"
  proof (cases k)
    case (TextNode j w)
    with nk have "k = TextNode n v" by simp
    with ks show ?thesis by auto
  next
    case (Element j t' c' ks')
    then have "\<not> is_text k" by simp
    with pk obtain p2 t2 c2 pre2 post2 where
      p2: "parentNode n k = Some (Element p2 t2 c2 (pre2 @ TextNode n v # post2))" by blast
    have "node_id k \<noteq> n"
    proof
      assume "node_id k = n"
      with Element have jn: "j = n" by simp
      from nk Element have "(n, v) \<in> set (concat (map text_nodes ks'))" by simp
      then obtain y where "y \<in> set ks'" "(n, v) \<in> set (text_nodes y)" by auto
      with text_nodes_ids[of y] have "n \<in> set (concat (map ids ks'))" by force
      with dk Element jn show False by simp
    qed
    with idpre idpost ks have "n \<notin> set (map node_id ks)" by auto
    moreover have "\<forall>x\<in>set pre. parentNode n x = None" using npre by (simp add: parentNode_absent)
    then have "first_some (map (parentNode n) ks) = parentNode n k"
      using ks first_some_skip[of pre "parentNode n" "k # post"] p2 by simp
    ultimately have "parentNode n (Element i t c ks) = Some (Element p2 t2 c2 (pre2 @ TextNode n v # post2))"
      using p2 by simp
    then show ?thesis by blast
  qed
  with nv show ?case by simp
qed

lemma text_nodes_leaves: "text_nodes r = map (\<lambda>(i, v, b). (i, v)) (leaves cls inh r)"
proof (induction r arbitrary: inh)
  case (TextNode i v)
  then show ?case by simp
next
  case (Element i t c ks)
  have "map text_nodes ks = map (\<lambda>k. map (\<lambda>(i, v, b). (i, v)) (leaves cls (inh \<or> cls \<in> set c) k)) ks"
    by (rule map_cong[OF refl]) (use Element in simp)
  then have "concat (map text_nodes ks) =
      concat (map (\<lambda>k. map (\<lambda>(i, v, b). (i, v)) (leaves cls (inh \<or> cls \<in> set c) k)) ks)"
    by (rule arg_cong)
  then show ?case by (simp only: text_nodes.simps leaves.simps map_concat map_map comp_def)
qed

lemma find_node_text_nodes:
  assumes "distinct (ids r)" "find_node q r = Some p"
  shows "set (text_nodes p) \<subseteq> set (text_nodes r)"
proof -
  let ?f = "\<lambda>(i, v, b). (i, v) :: nat \<times> string"
  from leaves_replace[OF assms, of "[]" False] obtain A B inh' where
    eq: "leaves [] False r = A @ leaves [] inh' p @ B" by blast
  have r: "text_nodes r = map ?f (leaves [] False r)" by (rule text_nodes_leaves)
  have p: "text_nodes p = map ?f (leaves [] inh' p)" by (rule text_nodes_leaves)
  from r eq have "text_nodes r = map ?f A @ map ?f (leaves [] inh' p) @ map ?f B" by simp
  with p have "text_nodes r = map ?f A @ text_nodes p @ map ?f B" by simp
  then show ?thesis by auto
qed

lemma nodeValue_of_child:
  assumes d: "distinct (ids r)" and pn: "parentNode n r = Some (Element p t c ks)"
    and k: "TextNode n v \<in> set ks"
  shows "nodeValue n r = Some v"
proof -
  from parentNode_find[OF d pn] have f: "find_node p r = Some (Element p t c ks)" by simp
  from k have "(n, v) \<in> set (text_nodes (Element p t c ks))" by force
  with find_node_text_nodes[OF d f] have "(n, v) \<in> set (text_nodes r)" by blast
  from text_node_parent_aux[OF d this] show ?thesis by simp
qed

lemma insert_before_post:
  assumes "\<forall>y\<in>set post. node_id y \<notin> node_id ` set xs"
  shows "insert_before x (case post of [] \<Rightarrow> None | y # ys \<Rightarrow> Some (node_id y)) (xs @ post) = xs @ x # post"
proof (cases post)
  case Nil
  then show ?thesis by (simp add: insert_before_null)
next
  case (Cons y ys)
  with assms have "node_id y \<notin> node_id ` set xs" by simp
  from insert_before_at[OF this refl, of x ys] Cons show ?thesis by simp
qed

lemma applyToNode_same: "applyToNode cls st n k k = Some (st, [])"
  by (simp add: applyToNode_def)

lemma applyToNode_whole:
  assumes "nodeValue n (root st) = Some v" "v \<noteq> []"
  shows "applyToNode cls st n 0 (int (length v)) =
           (case applyToWholeNode cls st n of None \<Rightarrow> None | Some (st', a) \<Rightarrow> Some (st', [a]))"
  using assms by (simp add: applyToNode_def)

lemma applyToNode_head:
  assumes w: "wf st" and pn: "parentNode n (root st) = Some (Element p t c (pre @ TextNode n v # post))"
    and e: "e \<noteq> 0" "e \<noteq> int (length v)"
  shows "applyToNode cls st n 0 e =
           Some (\<lparr>root = replace_node p
                    (Element p t c (pre @ Element (next_id st) ''span'' [cls]
                                            [TextNode (next_id st + 1) (substring v 0 e)]
                                        # TextNode n (substring v e (int (length v))) # post)) (root st),
                  next_id = next_id st + 2\<rparr>, [next_id st])"
proof -
  note wp = wf_parent[OF w pn]
  have npre: "n \<notin> node_id ` set pre" and npost: "n \<notin> node_id ` set post" using wp(2) by auto
  have nv: "nodeValue n (root st) = Some v"
    using nodeValue_of_child[OF _ pn] w by (simp add: wf_def)
  let ?c = "next_id st"
  let ?cont = "Element ?c ''span'' [cls] [TextNode (?c + 1) (substring v 0 e)]"
  have fresh: "?c \<notin> node_id ` set (pre @ TextNode n v # post)" using fresh_not_child[OF wp(4)] by simp
  then have cpre: "?c \<notin> node_id ` set pre" and cpost: "?c \<notin> node_id ` set post" and cn: "?c \<noteq> n"
    by auto
  have ib: "insert_before ?cont (Some n) (pre @ TextNode n v # post) = pre @ ?cont # TextNode n v # post"
    using insert_before_at[OF npre, of "TextNode n v"] by simp
  have up: "map (\<lambda>k. if node_id k = n then set_value (substring v e (int (length v))) k else k)
              (pre @ ?cont # TextNode n v # post)
            = pre @ ?cont # TextNode n (substring v e (int (length v))) # post"
    using npre npost cn by (simp add: map_update_absent)
  show ?thesis
    using pn nv e ib up by (simp add: applyToNode_def Let_def set_nodeValue_def)
qed


lemma applyToNode_middle:
  assumes w: "wf st" and pn: "parentNode n (root st) = Some (Element p t c (pre @ TextNode n v # post))"
    and se: "s \<noteq> 0" "s \<noteq> e"
  shows "applyToNode cls st n s e =
           Some (\<lparr>root = replace_node p
                    (Element p t c (pre @ TextNode n (substring v 0 s)
                        # Element (next_id st) ''span'' [cls] [TextNode (next_id st + 1) (substring v s e)]
                        # (if e < int (length v)
                           then [TextNode (next_id st + 2) (substring v e (int (length v)))] else [])
                        @ post)) (root st),
                  next_id = (if e < int (length v) then next_id st + 3 else next_id st + 2)\<rparr>,
                 [next_id st])"
proof -
  note wp = wf_parent[OF w pn]
  have npre: "n \<notin> node_id ` set pre" and npost: "n \<notin> node_id ` set post" using wp(2) by auto
  have nv: "nodeValue n (root st) = Some v"
    using nodeValue_of_child[OF _ pn] w by (simp add: wf_def)
  let ?c = "next_id st"
  let ?h = "TextNode n (substring v 0 s)"
  let ?cont = "Element ?c ''span'' [cls] [TextNode (?c + 1) (substring v s e)]"
  let ?tail = "TextNode (?c + 2) (substring v e (int (length v)))"
  let ?ref = "case post of [] \<Rightarrow> None | y # ys \<Rightarrow> Some (node_id y)"
  have fresh: "?c \<notin> node_id ` set (pre @ TextNode n v # post)" using fresh_not_child[OF wp(4)] by simp
  then have cpost: "?c \<notin> node_id ` set post" by auto
  have up: "map (\<lambda>k. if node_id k = n then set_value (substring v 0 s) k else k) (pre @ TextNode n v # post)
            = pre @ ?h # post"
    using npre npost by (simp add: map_update_absent)
  have ns: "map_option node_id (next_sibling n (pre @ ?h # post)) = ?ref"
    using next_sibling_at[OF npre, of ?h post] by (simp split: list.splits)
  have d1: "\<forall>y\<in>set post. node_id y \<notin> node_id ` set (pre @ [?h])"
    using wp(2) by auto
  have ib1: "insert_before ?cont ?ref (pre @ ?h # post) = pre @ ?h # ?cont # post"
    using insert_before_post[OF d1, of ?cont] by simp
  have d2: "\<forall>y\<in>set post. node_id y \<notin> node_id ` set (pre @ [?h, ?cont])"
    using wp(2) cpost by (auto simp: image_iff)
  have ib2: "insert_before ?tail ?ref (pre @ ?h # ?cont # post) = pre @ ?h # ?cont # ?tail # post"
    using insert_before_post[OF d2, of ?tail] by simp
  show ?thesis
    using pn nv se up ns ib1 ib2
    by (simp add: applyToNode_def Let_def set_nodeValue_def nextSibling_def)
qed

section \<open>The leaves of the tree and what the operations do to them\<close>

lemma distinct_concat_sub:
  "distinct (concat (map g ks)) \<Longrightarrow> (\<And>k. k \<in> set ks \<Longrightarrow> set (f k) \<subseteq> set (g k) \<and> (distinct (g k) \<longrightarrow> distinct (f k))) \<Longrightarrow>
   distinct (concat (map f ks))"
proof (induction ks)
  case Nil
  then show ?case by simp
next
  case (Cons k ks)
  have 1: "distinct (f k)" using Cons.prems by auto
  have 2: "distinct (concat (map f ks))" using Cons by auto
  have 3: "set (f k) \<inter> set (concat (map f ks)) = {}"
  proof -
    have "set (f k) \<subseteq> set (g k)" using Cons.prems(2) by auto
    moreover have "set (concat (map f ks)) \<subseteq> set (concat (map g ks))" using Cons.prems(2) by fastforce
    moreover have "set (g k) \<inter> set (concat (map g ks)) = {}" using Cons.prems(1) by auto
    ultimately show ?thesis by blast
  qed
  from 1 2 3 show ?case by simp
qed

lemma leaves_ids: "set (map fst (leaves cls inh r)) \<subseteq> set (ids r)"
  using text_nodes_ids[of r] text_nodes_leaves[of r cls inh] by force

lemma leaves_distinct: "distinct (ids r) \<Longrightarrow> distinct (map fst (leaves cls inh r))"
proof (induction r arbitrary: inh)
  case (TextNode i v)
  then show ?case by simp
next
  case (Element i t c ks)
  let ?f = "\<lambda>k. map fst (leaves cls (inh \<or> cls \<in> set c) k)"
  have d: "distinct (concat (map ids ks))" using Element.prems by simp
  have "distinct (concat (map ?f ks))"
  proof (rule distinct_concat_sub[OF d])
    fix k assume k: "k \<in> set ks"
    show "set (?f k) \<subseteq> set (ids k) \<and> (distinct (ids k) \<longrightarrow> distinct (?f k))"
      using leaves_ids[of cls _ k] Element.IH[OF k] by blast
  qed
  then show ?case by (simp add: map_concat comp_def)
qed

lemma unique_split:
  "distinct (map fst (X @ (n, a) # Y)) \<Longrightarrow> X @ (n, a) # Y = X' @ (n, a') # Y' \<Longrightarrow>
   X = X' \<and> a = a' \<and> Y = Y'"
proof (induction X arbitrary: X')
  case Nil
  show ?case
  proof (cases X')
    case Nil
    with Nil.prems show ?thesis by simp
  next
    case (Cons x xs)
    with Nil.prems have "x = (n, a)" "Y = xs @ (n, a') # Y'" by auto
    with Nil.prems(1) show ?thesis by auto
  qed
next
  case (Cons x X)
  show ?case
  proof (cases X')
    case Nil
    with Cons.prems have "x = (n, a')" by simp
    with Cons.prems(1) show ?thesis by auto
  next
    case (Cons x' xs)
    with Cons.prems have "x = x'" "X @ (n, a) # Y = xs @ (n, a') # Y'" by auto
    with Cons.IH[of xs] Cons.prems(1) Cons show ?thesis by auto
  qed
qed

lemma leaves_kids:
  "leaves cls inh (Element p t c (pre @ k # post)) =
     concat (map (leaves cls (inh \<or> cls \<in> set c)) pre) @ leaves cls (inh \<or> cls \<in> set c) k @
     concat (map (leaves cls (inh \<or> cls \<in> set c)) post)"
  by simp

lemma leaf_context:
  assumes w: "wf st" and l: "leaves cls False (root st) = A @ (n, v, b) # B"
  shows "\<exists>p t c pre post A' B' inh'.
           parentNode n (root st) = Some (Element p t c (pre @ TextNode n v # post)) \<and>
           A = A' @ concat (map (leaves cls (inh' \<or> cls \<in> set c)) pre) \<and>
           B = concat (map (leaves cls (inh' \<or> cls \<in> set c)) post) @ B' \<and>
           b = (inh' \<or> cls \<in> set c) \<and>
           (\<forall>x. leaves cls False (replace_node p x (root st)) = A' @ leaves cls inh' x @ B')"
proof -
  from w have d: "distinct (ids (root st))" and nt: "\<not> is_text (root st)" by (auto simp: wf_def)
  have "(n, v) \<in> set (text_nodes (root st))"
    using l text_nodes_leaves[of "root st" cls False] by force
  from text_node_parent_aux[OF d this] nt obtain p t c pre post where
    pn: "parentNode n (root st) = Some (Element p t c (pre @ TextNode n v # post))" by blast
  from parentNode_find[OF d pn] have f: "find_node p (root st) = Some (Element p t c (pre @ TextNode n v # post))"
    by simp
  from leaves_replace[OF d f, of cls False] obtain A' B' inh' where
    eq: "leaves cls False (root st) = A' @ leaves cls inh' (Element p t c (pre @ TextNode n v # post)) @ B'"
    and rp: "\<forall>x. leaves cls False (replace_node p x (root st)) = A' @ leaves cls inh' x @ B'" by blast
  let ?i = "inh' \<or> cls \<in> set c"
  let ?P = "concat (map (leaves cls ?i) pre)"
  let ?Q = "concat (map (leaves cls ?i) post)"
  from eq l have e2: "A @ (n, v, b) # B = (A' @ ?P) @ (n, v, ?i) # (?Q @ B')" by simp
  have d2: "distinct (map fst (A @ (n, v, b) # B))" using leaves_distinct[OF d, of cls False] l by simp
  have "A = A' @ ?P \<and> (v, b) = (v, ?i) \<and> B = ?Q @ B'" by (rule unique_split[OF d2 e2])
  then have "parentNode n (root st) = Some (Element p t c (pre @ TextNode n v # post)) \<and>
           A = A' @ ?P \<and> B = ?Q @ B' \<and> b = ?i \<and>
           (\<forall>x. leaves cls False (replace_node p x (root st)) = A' @ leaves cls inh' x @ B')"
    using pn rp by simp
  then show ?thesis by blast
qed

lemma is_text_replace: "\<not> is_text r \<Longrightarrow> \<not> is_text x \<Longrightarrow> \<not> is_text (replace_node p x r)"
  by (cases r) auto

lemma wf_replace:
  assumes w: "wf st" and f: "find_node p (root st) = Some par"
    and nt: "\<not> is_text par'" and d': "distinct (ids par')"
    and sub: "set (ids par') \<subseteq> set (ids par) \<union> {i. next_id st \<le> i \<and> i < m}" and m: "next_id st \<le> m"
  shows "wf \<lparr>root = replace_node p par' (root st), next_id = m\<rparr>"
proof -
  from w have d: "distinct (ids (root st))" and rt: "\<not> is_text (root st)"
    and lt: "\<forall>i\<in>set (ids (root st)). i < next_id st" by (auto simp: wf_def list_all_iff)
  from ids_replace[OF d f] obtain X Y where
    eq: "ids (root st) = X @ ids par @ Y" and rp: "\<And>x. ids (replace_node p x (root st)) = X @ ids x @ Y"
    by blast
  have new: "\<forall>i\<in>set (ids par'). i \<notin> set X \<and> i \<notin> set Y"
  proof
    fix i assume i: "i \<in> set (ids par')"
    with sub have "i \<in> set (ids par) \<or> next_id st \<le> i" by auto
    then show "i \<notin> set X \<and> i \<notin> set Y"
    proof
      assume "i \<in> set (ids par)"
      with d eq show ?thesis by auto
    next
      assume "next_id st \<le> i"
      with lt have "i \<notin> set (ids (root st))" by auto
      with eq show ?thesis by simp
    qed
  qed
  have "distinct (X @ ids par' @ Y)" using d eq d' new by auto
  moreover have "\<forall>i\<in>set (X @ ids par' @ Y). i < m"
  proof
    fix i assume "i \<in> set (X @ ids par' @ Y)"
    then have "i \<in> set (ids (root st)) \<or> i \<in> set (ids par')" using eq by auto
    moreover have "set (ids par) \<subseteq> set (ids (root st))" using eq by auto
    ultimately have "i \<in> set (ids (root st)) \<or> (next_id st \<le> i \<and> i < m)" using sub by blast
    then show "i < m" using lt m by force
  qed
  ultimately show ?thesis using rp[of par'] is_text_replace[OF rt nt] by (simp add: wf_def list_all_iff)
qed

lemma applyToWholeNode_wrap_at:
  assumes w: "wf st" and pn: "parentNode n (root st) = Some (Element p t c ks)"
    and ks: "ks = pre @ node # post"
    and nid: "node_id node = n" and len: "length ks \<noteq> 1"
  shows "applyToWholeNode cls st n =
             Some (\<lparr>root = replace_node p
                      (Element p t c (pre @ Element (next_id st) ''span'' [cls] [node] # post)) (root st),
                    next_id = next_id st + 1\<rparr>, next_id st)"
proof -
  note wp = wf_parent[OF w pn]
  have npre: "n \<notin> node_id ` set pre" and npost: "n \<notin> node_id ` set post" using wp(2) nid ks by auto
  let ?c = "next_id st"
  let ?cont = "Element ?c ''span'' [cls] []"
  have fresh: "?c \<notin> node_id ` set ks" using fresh_not_child[OF wp(4)] by simp
  then have cpre: "?c \<notin> node_id ` set pre" and cpost: "?c \<notin> node_id ` set post" and cn: "?c \<noteq> n"
    using nid ks by auto
  have ch: "child n ks = Some node" using ks child_at[OF npre nid] by simp
  have ib: "insert_before ?cont (Some n) ks = pre @ ?cont # node # post"
    using ks insert_before_at[OF npre nid] by simp
  have rm: "filter (\<lambda>k. node_id k \<noteq> n) (pre @ ?cont # node # post) = pre @ ?cont # post"
    using npre npost nid cn by (simp add: filter_remove_absent)
  have up: "map (\<lambda>k. if node_id k = ?c then appendChild k node else k) (pre @ ?cont # post)
              = pre @ Element ?c ''span'' [cls] [node] # post"
    using map_update_at[OF cpre cpost, of ?cont "\<lambda>k. appendChild k node"] by simp
  show ?thesis
    using pn len ch ib rm up by (simp add: applyToWholeNode_def Let_def)
qed

lemma fresh_notin: "\<forall>i\<in>set xs. i < m \<Longrightarrow> m \<le> j \<Longrightarrow> j \<notin> set (xs :: nat list)"
  by auto

lemma ids_kids: "ids (Element p t c ks) = p # concat (map ids ks)"
  by simp

lemma applyToWholeNode_leaves:
  assumes w: "wf st" and l: "leaves cls False (root st) = A @ (n, v, b) # B"
  shows "\<exists>st' a. applyToWholeNode cls st n = Some (st', a) \<and> wf st' \<and>
           leaves cls False (root st') = A @ (n, v, True) # B \<and> next_id st \<le> next_id st'"
proof -
  from leaf_context[OF w l] obtain p t c pre post A' B' inh' where
    pn: "parentNode n (root st) = Some (Element p t c (pre @ TextNode n v # post))"
    and A: "A = A' @ concat (map (leaves cls (inh' \<or> cls \<in> set c)) pre)"
    and B: "B = concat (map (leaves cls (inh' \<or> cls \<in> set c)) post) @ B'"
    and b: "b = (inh' \<or> cls \<in> set c)"
    and rp: "\<And>x. leaves cls False (replace_node p x (root st)) = A' @ leaves cls inh' x @ B'"
    by blast
  note wp = wf_parent[OF w pn]
  show ?thesis
  proof (cases "length (pre @ TextNode n v # post) = 1")
    case True
    then have e: "pre = []" "post = []" by auto
    let ?par = "Element p t (if cls \<in> set c then c else c @ [cls]) [TextNode n v]"
    let ?st = "\<lparr>root = replace_node p ?par (root st), next_id = next_id st\<rparr>"
    have r: "applyToWholeNode cls st n = Some (?st, p)"
      using applyToWholeNode_single[OF w pn True, of cls] e by simp
    have "wf ?st"
      by (rule wf_replace[OF w wp(1)]) (use e wp(5) in auto)
    moreover have "leaves cls False (root ?st) = A @ (n, v, True) # B"
      using rp[of ?par] A B e by simp
    ultimately show ?thesis using r by auto
  next
    case False
    let ?par = "Element p t c (pre @ Element (next_id st) ''span'' [cls] [TextNode n v] # post)"
    let ?st = "\<lparr>root = replace_node p ?par (root st), next_id = next_id st + 1\<rparr>"
    have r: "applyToWholeNode cls st n = Some (?st, next_id st)"
      using applyToWholeNode_wrap_at[OF w pn refl _ False, of cls] by simp
    have fr: "next_id st \<notin> set (ids (Element p t c (pre @ TextNode n v # post)))"
      using wp(4) by auto
    have "distinct (ids ?par)" using wp(5) fr by auto
    moreover have "set (ids ?par) \<subseteq> set (ids (Element p t c (pre @ TextNode n v # post))) \<union>
        {i. next_id st \<le> i \<and> i < next_id st + 1}" by auto
    ultimately have "wf ?st"
      using wf_replace[OF w wp(1), of ?par "next_id st + 1"] by simp
    moreover have "leaves cls False (root ?st) = A @ (n, v, True) # B"
      using rp[of ?par] A B by simp
    ultimately show ?thesis using r by auto
  qed
qed

lemma applyToNode_leaves:
  assumes w: "wf st" and l: "leaves cls False (root st) = A @ (n, v, b) # B"
  shows "\<exists>st' aff. applyToNode cls st n s e = Some (st', aff) \<and> wf st' \<and>
           leaves cls False (root st') = A @ pieces n v b (next_id st) s e @ B \<and>
           next_id st \<le> next_id st'"
proof -
  from leaf_context[OF w l] obtain p t c pre post A' B' inh' where
    pn: "parentNode n (root st) = Some (Element p t c (pre @ TextNode n v # post))"
    and A: "A = A' @ concat (map (leaves cls (inh' \<or> cls \<in> set c)) pre)"
    and B: "B = concat (map (leaves cls (inh' \<or> cls \<in> set c)) post) @ B'"
    and b: "b = (inh' \<or> cls \<in> set c)"
    and rp: "\<And>x. leaves cls False (replace_node p x (root st)) = A' @ leaves cls inh' x @ B'"
    by blast
  note wp = wf_parent[OF w pn]
  have nv: "nodeValue n (root st) = Some v"
    using nodeValue_of_child[OF _ pn] w by (simp add: wf_def)
  have fr: "\<forall>i\<in>set (ids (Element p t c (pre @ TextNode n v # post))). i < next_id st"
    using wp(4) by auto
  have f0: "next_id st \<notin> set (ids (Element p t c (pre @ TextNode n v # post)))"
    and f1: "next_id st + 1 \<notin> set (ids (Element p t c (pre @ TextNode n v # post)))"
    and f2: "next_id st + 2 \<notin> set (ids (Element p t c (pre @ TextNode n v # post)))"
    using fresh_notin[OF fr] by simp_all
  consider (same) "s = e" | (whole) "s \<noteq> e" "s = 0" "e = int (length v)"
    | (head) "s \<noteq> e" "s = 0" "e \<noteq> int (length v)" | (mid) "s \<noteq> e" "s \<noteq> 0" by blast
  then show ?thesis
  proof cases
    case same
    then show ?thesis using w l by (simp add: applyToNode_def pieces_def)
  next
    case whole
    from applyToWholeNode_leaves[OF w l] obtain st' a where
      "applyToWholeNode cls st n = Some (st', a)" "wf st'"
      "leaves cls False (root st') = A @ (n, v, True) # B" "next_id st \<le> next_id st'" by blast
    then show ?thesis using whole nv by (simp add: applyToNode_def pieces_def)
  next
    case head
    let ?par = "Element p t c (pre @ Element (next_id st) ''span'' [cls]
                                            [TextNode (next_id st + 1) (substring v 0 e)]
                                        # TextNode n (substring v e (int (length v))) # post)"
    let ?st = "\<lparr>root = replace_node p ?par (root st), next_id = next_id st + 2\<rparr>"
    have r: "applyToNode cls st n 0 e = Some (?st, [next_id st])"
      using applyToNode_head[OF w pn, of e cls] head by simp
    have "distinct (ids ?par)" using wp(5) f0 f1 by auto
    moreover have "set (ids ?par) \<subseteq> set (ids (Element p t c (pre @ TextNode n v # post))) \<union>
        {i. next_id st \<le> i \<and> i < next_id st + 2}" by auto
    ultimately have "wf ?st"
      using wf_replace[OF w wp(1), of ?par "next_id st + 2"] by simp
    moreover have "leaves cls False (root ?st) = A @ pieces n v b (next_id st) s e @ B"
      using rp[of ?par] A B b head by (simp add: pieces_def)
    ultimately show ?thesis using r head by auto
  next
    case mid
    let ?tail = "if e < int (length v)
                           then [TextNode (next_id st + 2) (substring v e (int (length v)))] else []"
    let ?par = "Element p t c (pre @ TextNode n (substring v 0 s)
                        # Element (next_id st) ''span'' [cls] [TextNode (next_id st + 1) (substring v s e)]
                        # ?tail @ post)"
    let ?m = "if e < int (length v) then next_id st + 3 else next_id st + 2"
    let ?st = "\<lparr>root = replace_node p ?par (root st), next_id = ?m\<rparr>"
    have r: "applyToNode cls st n s e = Some (?st, [next_id st])"
      using applyToNode_middle[OF w pn mid(2) mid(1), of cls] by simp
    have d': "distinct (ids ?par)" using wp(5) f0 f1 f2 by auto
    have sub: "set (ids ?par) \<subseteq> set (ids (Element p t c (pre @ TextNode n v # post))) \<union>
        {i. next_id st \<le> i \<and> i < ?m}" by auto
    have m: "next_id st \<le> ?m" by simp
    have nt: "\<not> is_text ?par" by simp
    have "wf ?st" by (rule wf_replace[OF w wp(1) nt d' sub m])
    moreover have "leaves cls False (root ?st) = A @ pieces n v b (next_id st) s e @ B"
      using rp[of ?par] A B b mid by (simp add: pieces_def)
    ultimately show ?thesis using r by auto
  qed
qed

lemma substring_split:
  "0 \<le> e \<Longrightarrow> substring v 0 e @ substring v e (int (length v)) = v"
  by (auto simp: substring_def Let_def min_def max_def)

lemma substring_three:
  assumes "0 < s" "s \<le> e \<or> e = int (length v)"
  shows "substring v 0 s @ substring v s e @
         (if e < int (length v) then substring v e (int (length v)) else []) = v"
proof (cases "e < int (length v)")
  case True
  with assms have se: "s \<le> e" by auto
  have "take (nat s) v @ take (nat (e - s)) (drop (nat s) v) @ drop (nat e) v = v"
  proof -
    have "nat e = nat (e - s) + nat s" using assms(1) se by simp
    then have "drop (nat e) v = drop (nat (e - s)) (drop (nat s) v)" by (simp only: drop_drop)
    then have "take (nat (e - s)) (drop (nat s) v) @ drop (nat e) v = drop (nat s) v"
      by (simp only: append_take_drop_id)
    then show ?thesis by (simp only: append_take_drop_id)
  qed
  with True se assms(1) show ?thesis
    by (simp add: substring_def Let_def min_def max_def)
next
  case False
  with assms show ?thesis
    by (auto simp: substring_def Let_def min_def max_def)
qed

lemma pieces_text:
  assumes "0 \<le> s" "s \<le> e \<or> e = int (length v)"
  shows "concat (map (\<lambda>x. fst (snd x)) (pieces n v b c s e)) = v"
proof -
  consider (same) "s = e" | (whole) "s \<noteq> e" "s = 0" "e = int (length v)"
    | (head) "s \<noteq> e" "s = 0" "e \<noteq> int (length v)" | (mid) "s \<noteq> e" "s \<noteq> 0" by blast
  then show ?thesis
  proof cases
    case same
    then show ?thesis by (simp add: pieces_def)
  next
    case whole
    then show ?thesis by (simp add: pieces_def)
  next
    case head
    with assms have "0 \<le> e" by auto
    from substring_split[OF this, of v] head show ?thesis by (simp add: pieces_def)
  next
    case mid
    with assms have "0 < s" by auto
    from substring_three[OF this assms(2)] mid show ?thesis
      by (cases "e < int (length v)") (simp_all add: pieces_def)
  qed
qed

lemma pieces_has_node: "n \<in> fst ` set (pieces n v b c s e)"
  by (simp add: pieces_def)

lemma textContent_leaves: "textContent r = concat (map (\<lambda>x. fst (snd x)) (leaves cls inh r))"
  by (simp add: textContent_def text_nodes_leaves[of r cls inh] comp_def case_prod_unfold)

lemma text_ids_leaves: "fst ` set (text_nodes r) = fst ` set (leaves cls inh r)"
  by (force simp: text_nodes_leaves[of r cls inh])

lemma leaf_split:
  assumes "n \<in> fst ` set (text_nodes r)"
  shows "\<exists>A v b B. leaves cls False r = A @ (n, v, b) # B"
proof -
  from assms have "n \<in> fst ` set (leaves cls False r)" by (simp add: text_ids_leaves[of r cls False])
  then obtain v b where "(n, v, b) \<in> set (leaves cls False r)" by force
  then show ?thesis by (meson split_list)
qed

lemma leaf_nodeValue:
  assumes "wf st" "leaves cls False (root st) = A @ (n, v, b) # B"
  shows "nodeValue n (root st) = Some v"
proof -
  from assms(1) have d: "distinct (ids (root st))" by (simp add: wf_def)
  have "(n, v) \<in> set (text_nodes (root st))"
    using assms(2) text_nodes_leaves[of "root st" cls False] by force
  from text_node_parent_aux[OF d this] show ?thesis by simp
qed

section \<open>Elements, tags and adjacent text nodes\<close>

lemma elements_context:
  "distinct (ids r) \<Longrightarrow> find_node q r = Some p \<Longrightarrow>
   \<exists>A B. \<forall>x. elements_all (replace_node q x r) = A @ elements_all x @ B"
proof (induction r)
  case (TextNode i v)
  then have "\<forall>x. elements_all (replace_node q x (TextNode i v)) = [] @ elements_all x @ []"
    by (auto split: if_splits)
  then show ?case by blast
next
  case (Element i t c ks)
  show ?case
  proof (cases "i = q")
    case True
    then have "\<forall>x. elements_all (replace_node q x (Element i t c ks)) = [] @ elements_all x @ []"
      by simp
    then show ?thesis by blast
  next
    case False
    from find_child_split[OF Element.prems(1) False Element.prems(2)] obtain pre k post where
      ks: "ks = pre @ k # post" and fk: "find_node q k = Some p"
      and rp: "\<And>x. map (replace_node q x) ks = pre @ replace_node q x k # post" by blast
    have "distinct (ids k)" using Element.prems(1) ks by auto
    have "k \<in> set ks" using ks by simp
    from Element.IH[of k, OF this \<open>distinct (ids k)\<close> fk] obtain A B where
      ih: "\<And>x. elements_all (replace_node q x k) = A @ elements_all x @ B"
      by blast
    have "\<forall>x. elements_all (replace_node q x (Element i t c ks)) =
            ((i, t, c) # concat (map elements_all pre) @ A) @ elements_all x @ (B @ concat (map elements_all post))"
      using False rp ih by simp
    then show ?thesis by blast
  qed
qed

lemma elements_replace:
  assumes "distinct (ids r)" "find_node q r = Some p"
  shows "\<exists>A B. elements_all r = A @ elements_all p @ B \<and>
           (\<forall>x. elements_all (replace_node q x r) = A @ elements_all x @ B)"
proof -
  from elements_context[OF assms] obtain A B where
    c: "\<And>x. elements_all (replace_node q x r) = A @ elements_all x @ B" by blast
  from c[of p] replace_node_self[OF assms] have "elements_all r = A @ elements_all p @ B"
    by simp
  with c show ?thesis by blast
qed

lemma elements_ids: "fst ` set (elements_all r) \<subseteq> set (ids r)"
proof (induction r)
  case (TextNode i v)
  then show ?case by simp
next
  case (Element i t c ks)
  then show ?case by fastforce
qed

lemma elements_distinct: "distinct (ids r) \<Longrightarrow> distinct (map fst (elements_all r))"
proof (induction r)
  case (TextNode i v)
  then show ?case by simp
next
  case (Element i t c ks)
  have d: "distinct (concat (map ids ks))" using Element.prems by simp
  have "distinct (concat (map (\<lambda>k. map fst (elements_all k)) ks))"
  proof (rule distinct_concat_sub[OF d])
    fix k assume k: "k \<in> set ks"
    show "set (map fst (elements_all k)) \<subseteq> set (ids k) \<and>
          (distinct (ids k) \<longrightarrow> distinct (map fst (elements_all k)))"
      using elements_ids[of k] Element.IH[OF k] by auto
  qed
  moreover have "i \<notin> set (concat (map (\<lambda>k. map fst (elements_all k)) ks))"
  proof
    assume "i \<in> set (concat (map (\<lambda>k. map fst (elements_all k)) ks))"
    then obtain k where "k \<in> set ks" "i \<in> fst ` set (elements_all k)" by auto
    with elements_ids[of k] have "i \<in> set (concat (map ids ks))" by auto
    with Element.prems show False by simp
  qed
  ultimately show ?case by (simp add: map_concat comp_def)
qed

lemma descendants_ids: "k \<in> set (descendants r) \<Longrightarrow> set (ids k) \<subseteq> set (ids r) \<and> (distinct (ids r) \<longrightarrow> node_id r \<notin> set (ids k))"
proof (induction r)
  case (TextNode i v)
  then show ?case by simp
next
  case (Element i t c ks)
  from Element.prems obtain y where y: "y \<in> set ks" "k = y \<or> k \<in> set (descendants y)" by auto
  have "set (ids k) \<subseteq> set (ids y)" using y(2) Element.IH[OF y(1)] by auto
  with y(1) show ?case by auto
qed

lemma descendant_parent:
  "distinct (ids r) \<Longrightarrow> k \<in> set (descendants r) \<Longrightarrow>
   find_node (node_id k) r = Some k \<and>
   (\<exists>p' t' c' pre' post'. parentNode (node_id k) r = Some (Element p' t' c' (pre' @ k # post')))"
proof (induction r)
  case (TextNode i v)
  then show ?case by simp
next
  case (Element i t c ks)
  from Element.prems(2) obtain y where yin: "y \<in> set ks" and ky: "k = y \<or> k \<in> set (descendants y)"
    by auto
  from yin obtain pre post where ks: "ks = pre @ y # post" by (auto dest: split_list)
  have d: "distinct (concat (map ids pre) @ ids y @ concat (map ids post))" and ni: "i \<notin> set (ids y)"
    using Element.prems(1) ks by auto
  have dy: "distinct (ids y)" using d by simp
  let ?n = "node_id k"
  have sub: "set (ids k) \<subseteq> set (ids y)" using ky descendants_ids[of k y] by auto
  have nin: "?n \<in> set (ids y)" using sub node_id_in_ids[of k] by auto
  have npre: "\<forall>x\<in>set pre. ?n \<notin> set (ids x)" using d nin by auto
  have npost: "\<forall>x\<in>set post. ?n \<notin> set (ids x)" using d nin by auto
  have ne: "i \<noteq> ?n" using ni nin by auto
  have idpre: "?n \<notin> node_id ` set pre"
  proof
    assume "?n \<in> node_id ` set pre"
    then obtain z where "z \<in> set pre" "node_id z = ?n" by auto
    with node_id_in_ids[of z] npre show False by auto
  qed
  have idpost: "?n \<notin> node_id ` set post"
  proof
    assume "?n \<in> node_id ` set post"
    then obtain z where "z \<in> set post" "node_id z = ?n" by auto
    with node_id_in_ids[of z] npost show False by auto
  qed
  have fpre: "\<forall>x\<in>set pre. find_node ?n x = None" using npre by (simp add: find_node_absent)
  have ppre: "\<forall>x\<in>set pre. parentNode ?n x = None" using npre by (simp add: parentNode_absent)
  show ?case
  proof (cases "k = y")
    case True
    have "find_node ?n y = Some y" using True by (cases y) auto
    then have f: "find_node ?n (Element i t c ks) = Some k"
      using ks ne True first_some_skip[OF fpre, of "y # post"] by simp
    have "parentNode ?n (Element i t c ks) = Some (Element i t c (pre @ k # post))"
      using ks True by simp
    with f show ?thesis by blast
  next
    case False
    with ky have kd: "k \<in> set (descendants y)" by simp
    from Element.IH[OF yin dy kd] obtain p2 t2 c2 pre2 post2 where
      fy: "find_node ?n y = Some k"
      and py: "parentNode ?n y = Some (Element p2 t2 c2 (pre2 @ k # post2))" by blast
    have f: "find_node ?n (Element i t c ks) = Some k"
      using ks ne fy first_some_skip[OF fpre, of "y # post"] by simp
    have "node_id y \<noteq> ?n" using descendants_ids[OF kd] dy node_id_in_ids[of k] by auto
    with idpre idpost ks have "?n \<notin> set (map node_id ks)" by auto
    then have "parentNode ?n (Element i t c ks) = Some (Element p2 t2 c2 (pre2 @ k # post2))"
      using ks py first_some_skip[OF ppre, of "y # post"] by simp
    with f show ?thesis by blast
  qed
qed

lemma elements_descendant:
  "(i, t, c) \<in> set (elements_all r) \<Longrightarrow>
   (\<exists>ks. r = Element i t c ks) \<or> (\<exists>ks. Element i t c ks \<in> set (descendants r))"
proof (induction r)
  case (TextNode j v)
  then show ?case by simp
next
  case (Element j t' c' ks')
  show ?case
  proof (cases "(i, t, c) = (j, t', c')")
    case True
    then show ?thesis by simp
  next
    case False
    with Element.prems obtain y where y: "y \<in> set ks'" "(i, t, c) \<in> set (elements_all y)" by auto
    from Element.IH[OF y] have "(\<exists>ks. y = Element i t c ks) \<or> (\<exists>ks. Element i t c ks \<in> set (descendants y))" .
    then have "\<exists>ks. Element i t c ks \<in> set (descendants (Element j t' c' ks'))"
      using y(1) by auto
    then show ?thesis by blast
  qed
qed

lemma element_below_parent:
  assumes d: "distinct (ids r)" and e: "(i, t, c) \<in> set (elements_below r)"
  shows "\<exists>ks p' t' c' pre' post'. find_node i r = Some (Element i t c ks) \<and>
           parentNode i r = Some (Element p' t' c' (pre' @ Element i t c ks # post'))"
proof -
  from e obtain y where y: "y \<in> set (childNodes r)" "(i, t, c) \<in> set (elements_all y)"
    by (auto simp: elements_below_def)
  obtain j tr cr ksr where r: "r = Element j tr cr ksr" using y(1) by (cases r) auto
  from elements_descendant[OF y(2)] obtain ks where "y = Element i t c ks \<or> Element i t c ks \<in> set (descendants y)"
    by blast
  then have "Element i t c ks \<in> set (descendants r)" using y(1) r by auto
  from descendant_parent[OF d this] show ?thesis by auto
qed

lemma find_node_descendant: "find_node q r = Some p \<Longrightarrow> p = r \<or> p \<in> set (descendants r)"
proof (induction r)
  case (TextNode i v)
  then show ?case by (auto split: if_splits)
next
  case (Element i t c ks)
  show ?case
  proof (cases "i = q")
    case True
    with Element.prems show ?thesis by simp
  next
    case False
    with Element.prems have "first_some (map (find_node q) ks) = Some p" by simp
    from first_some_split[OF this] obtain pre k post where
      "ks = pre @ k # post" "find_node q k = Some p" by blast
    with Element.IH[of k] show ?thesis by auto
  qed
qed

lemma descendants_trans:
  "p \<in> set (descendants r) \<Longrightarrow> k \<in> set (descendants p) \<Longrightarrow> k \<in> set (descendants r)"
proof (induction r)
  case (TextNode i v)
  then show ?case by simp
next
  case (Element i t c ks)
  from Element.prems(1) obtain y where y: "y \<in> set ks" "p = y \<or> p \<in> set (descendants y)" by auto
  with Element.IH[OF y(1) _ Element.prems(2)] Element.prems(2) have "k \<in> set (descendants y)" by auto
  with y(1) show ?case by auto
qed

lemma child_found:
  assumes d: "distinct (ids r)" and f: "find_node p r = Some (Element p t c ks)" and k: "k \<in> set ks"
  shows "find_node (node_id k) r = Some k"
proof -
  have kd: "k \<in> set (descendants (Element p t c ks))" using k by auto
  from find_node_descendant[OF f] have "k \<in> set (descendants r)"
    using kd descendants_trans by blast
  from descendant_parent[OF d this] show ?thesis by simp
qed

lemma node_ids_in:
  "x \<in> node_id ` set ks \<Longrightarrow> x \<in> set (concat (map ids ks))"
  using node_id_in_ids by fastforce

lemma adjacent_text_append:
  "adjacent_text (xs @ ys) \<longleftrightarrow>
     adjacent_text xs \<or> adjacent_text ys \<or> (xs \<noteq> [] \<and> ys \<noteq> [] \<and> is_text (last xs) \<and> is_text (hd ys))"
proof (induction xs rule: adjacent_text.induct)
  case (1 a b ks)
  then show ?case by auto
next
  case (2 a)
  then show ?case by (cases ys) auto
next
  case 3
  then show ?case by simp
qed

lemma adjacent_text_Cons:
  "adjacent_text (a # ys) \<longleftrightarrow> adjacent_text ys \<or> (ys \<noteq> [] \<and> is_text a \<and> is_text (hd ys))"
  by (cases ys) auto

lemma adjacent_text_cong:
  "map is_text ks = map is_text ks' \<Longrightarrow> adjacent_text ks = adjacent_text ks'"
proof (induction ks arbitrary: ks' rule: adjacent_text.induct)
  case (1 a b ks)
  then obtain a' b' ks2 where k: "ks' = a' # b' # ks2" by (cases ks'; cases "tl ks'") auto
  with 1 show ?case by auto
next
  case (2 a)
  then show ?case by (cases ks') auto
next
  case 3
  then show ?case by simp
qed

lemma is_text_replace_found:
  assumes "find_node q k = Some p \<or> q \<notin> set (ids k)" "\<not> is_text p" "\<not> is_text x"
  shows "is_text (replace_node q x k) = is_text k"
proof (cases k)
  case (TextNode i v)
  with assms show ?thesis by (auto split: if_splits)
next
  case (Element i t c ks)
  with assms show ?thesis by auto
qed

lemma normalized_replace:
  "distinct (ids r) \<Longrightarrow> find_node q r = Some p \<Longrightarrow> \<not> is_text p \<Longrightarrow> \<not> is_text x \<Longrightarrow>
   normalized r \<Longrightarrow> normalized x \<Longrightarrow> normalized (replace_node q x r)"
proof (induction r)
  case (TextNode i v)
  then show ?case by (auto split: if_splits)
next
  case (Element i t c ks)
  show ?case
  proof (cases "i = q")
    case True
    with Element.prems(6) show ?thesis by simp
  next
    case False
    from find_child_split[OF Element.prems(1) False Element.prems(2)] obtain pre k post where
      ks: "ks = pre @ k # post" and fk: "find_node q k = Some p"
      and rp: "\<And>y. map (replace_node q y) ks = pre @ replace_node q y k # post" by blast
    have dk: "distinct (ids k)" using Element.prems(1) ks by auto
    have kin: "k \<in> set ks" using ks by simp
    have nk: "normalized k" using Element.prems(5) ks by simp
    from Element.IH[OF kin dk fk Element.prems(3,4) nk Element.prems(6)]
    have n': "normalized (replace_node q x k)" .
    have "is_text (replace_node q x k) = is_text k"
      using is_text_replace_found[of q k p x] fk Element.prems(3,4) by simp
    then have "map is_text (pre @ replace_node q x k # post) = map is_text ks" using ks by simp
    from adjacent_text_cong[OF this] have "adjacent_text (pre @ replace_node q x k # post) = adjacent_text ks" .
    with Element.prems(5) n' ks rp[of x] False show ?thesis by simp
  qed
qed

lemma find_node_normalized:
  "find_node q r = Some p \<Longrightarrow> normalized r \<Longrightarrow> normalized p"
proof (induction r)
  case (TextNode i v)
  then show ?case by (auto split: if_splits)
next
  case (Element i t c ks)
  show ?case
  proof (cases "i = q")
    case True
    with Element.prems show ?thesis by auto
  next
    case False
    with Element.prems have "first_some (map (find_node q) ks) = Some p" by simp
    from first_some_split[OF this] obtain pre k post where
      "ks = pre @ k # post" "find_node q k = Some p" by blast
    with Element.IH[of k] Element.prems(2) show ?thesis by auto
  qed
qed

lemma span_elements_elements:
  "span_elements cls k = map fst (filter (\<lambda>x. fst (snd x) = ''span'' \<and> cls \<in> set (snd (snd x))) (elements_all k))"
proof (induction k)
  case (TextNode i v)
  then show ?case by simp
next
  case (Element i t c ks)
  have "map (span_elements cls) ks =
        map (\<lambda>k. map fst (filter (\<lambda>x. fst (snd x) = ''span'' \<and> cls \<in> set (snd (snd x))) (elements_all k))) ks"
    by (rule map_cong[OF refl]) (use Element in simp)
  then have "concat (map (span_elements cls) ks) =
        concat (map (\<lambda>k. map fst (filter (\<lambda>x. fst (snd x) = ''span'' \<and> cls \<in> set (snd (snd x))) (elements_all k))) ks)"
    by (rule arg_cong)
  then show ?case by (simp add: map_concat filter_concat comp_def)
qed

lemma matching_spans_elements:
  "matching_spans cls r =
     map fst (filter (\<lambda>x. fst (snd x) = ''span'' \<and> cls \<in> set (snd (snd x))) (elements_below r))"
proof -
  have "map (span_elements cls) (childNodes r) =
        map (\<lambda>k. map fst (filter (\<lambda>x. fst (snd x) = ''span'' \<and> cls \<in> set (snd (snd x))) (elements_all k))) (childNodes r)"
    by (rule map_cong[OF refl]) (simp add: span_elements_elements)
  then have "concat (map (span_elements cls) (childNodes r)) =
        concat (map (\<lambda>k. map fst (filter (\<lambda>x. fst (snd x) = ''span'' \<and> cls \<in> set (snd (snd x))) (elements_all k))) (childNodes r))"
    by (rule arg_cong)
  then show ?thesis
    by (simp add: matching_spans_def elements_below_def map_concat filter_concat comp_def)
qed

lemma spans_carriers: "spans_below r \<Longrightarrow> carriers cls r = matching_spans cls r"
proof -
  assume "spans_below r"
  then have "filter (\<lambda>x. cls \<in> set (snd (snd x))) (elements_below r) =
             filter (\<lambda>x. fst (snd x) = ''span'' \<and> cls \<in> set (snd (snd x))) (elements_below r)"
    by (intro filter_cong) (auto simp: spans_below_def list_all_iff)
  then show ?thesis by (simp add: carriers_def matching_spans_elements)
qed

lemma text_nodes_texts: "list_all is_text tp \<Longrightarrow> concat (map snd (concat (map text_nodes tp))) = concat (map text_value tp)"
proof (induction tp)
  case Nil
  then show ?case by simp
next
  case (Cons a tp)
  then show ?case by (cases a) auto
qed

lemma elements_texts: "list_all is_text tp \<Longrightarrow> concat (map elements_all tp) = []"
proof (induction tp)
  case Nil
  then show ?case by simp
next
  case (Cons a tp)
  then show ?case by (cases a) auto
qed

lemma textContent_replace:
  assumes d: "distinct (ids r)" and f: "find_node q r = Some p" and t: "textContent x = textContent p"
  shows "textContent (replace_node q x r) = textContent r"
proof -
  from leaves_replace[OF d f, of "[]" False] obtain A B inh' where
    eq: "leaves [] False r = A @ leaves [] inh' p @ B"
    and rp: "\<And>x. leaves [] False (replace_node q x r) = A @ leaves [] inh' x @ B" by blast
  let ?f = "\<lambda>x :: nat \<times> string \<times> bool. fst (snd x)"
  have tx: "textContent x = concat (map ?f (leaves [] inh' x))" by (rule textContent_leaves)
  have tp: "textContent p = concat (map ?f (leaves [] inh' p))" by (rule textContent_leaves)
  have "textContent (replace_node q x r) = concat (map ?f (leaves [] False (replace_node q x r)))"
    by (rule textContent_leaves)
  also have "\<dots> = concat (map ?f A) @ concat (map ?f (leaves [] inh' x)) @ concat (map ?f B)"
    by (simp only: rp map_append concat_append)
  also have "\<dots> = concat (map ?f A) @ concat (map ?f (leaves [] inh' p)) @ concat (map ?f B)"
    using t tx tp by simp
  also have "\<dots> = concat (map ?f (leaves [] False r))"
    by (simp only: eq map_append concat_append)
  also have "\<dots> = textContent r" by (rule textContent_leaves[symmetric])
  finally show ?thesis .
qed

lemma elements_below_tl: "\<not> is_text r \<Longrightarrow> elements_below r = tl (elements_all r)"
  by (cases r) (auto simp: elements_below_def)

lemma elements_below_replace:
  assumes d: "distinct (ids r)" and nt: "\<not> is_text r"
    and f: "find_node p r = Some (Element p t c ks)"
  shows "\<exists>X Y. elements_below r = X @ concat (map elements_all ks) @ Y \<and>
           (\<forall>c' ks'. elements_below (replace_node p (Element p t c' ks') r) =
                       (if p = node_id r then X else butlast X @ [(p, t, c')]) @ concat (map elements_all ks') @ Y) \<and>
           (p \<noteq> node_id r \<longrightarrow> X \<noteq> [] \<and> last X = (p, t, c))"
proof -
  from elements_replace[OF d f] obtain A B where
    eq: "elements_all r = A @ elements_all (Element p t c ks) @ B"
    and rp: "\<And>x. elements_all (replace_node p x r) = A @ elements_all x @ B" by blast
  obtain j tr cr ksr where r: "r = Element j tr cr ksr" using nt by (cases r) auto
  have nt': "\<And>x. \<not> is_text x \<Longrightarrow> \<not> is_text (replace_node p x r)" using nt by (simp add: is_text_replace)
  show ?thesis
  proof (cases "p = node_id r")
    case True
    with f r have A: "A = []"
    proof -
      from eq r have "(j, tr, cr) # concat (map elements_all ksr) = A @ (p, t, c) # concat (map elements_all ks) @ B"
        by simp
      moreover have "distinct (map fst (elements_all r))" by (rule elements_distinct[OF d])
      ultimately show ?thesis using True r by (cases A) auto
    qed
    have "elements_below r = [] @ concat (map elements_all ks) @ B"
      using eq A nt by (simp add: elements_below_tl)
    moreover have "\<forall>c' ks'. elements_below (replace_node p (Element p t c' ks') r) =
        [] @ concat (map elements_all ks') @ B"
      using rp A nt' by (simp add: elements_below_tl)
    ultimately have "elements_below r = [] @ concat (map elements_all ks) @ B \<and>
           (\<forall>c' ks'. elements_below (replace_node p (Element p t c' ks') r) =
                       (if p = node_id r then [] else butlast [] @ [(p, t, c')]) @ concat (map elements_all ks') @ B) \<and>
           (p \<noteq> node_id r \<longrightarrow> [] \<noteq> [] \<and> last [] = (p, t, c))"
      using True by simp
    then show ?thesis by blast
  next
    case False
    have A: "A \<noteq> []"
    proof
      assume "A = []"
      with eq r have "j = p" by simp
      with False r show False by simp
    qed
    have "elements_below r = (tl A @ [(p, t, c)]) @ concat (map elements_all ks) @ B"
      using eq A nt by (simp add: elements_below_tl)
    moreover have "\<forall>c' ks'. elements_below (replace_node p (Element p t c' ks') r) =
        (butlast (tl A @ [(p, t, c)]) @ [(p, t, c')]) @ concat (map elements_all ks') @ B"
      using rp A nt' by (simp add: elements_below_tl)
    ultimately have "elements_below r = (tl A @ [(p, t, c)]) @ concat (map elements_all ks) @ B \<and>
           (\<forall>c' ks'. elements_below (replace_node p (Element p t c' ks') r) =
                       (if p = node_id r then tl A @ [(p, t, c)]
                        else butlast (tl A @ [(p, t, c)]) @ [(p, t, c')]) @ concat (map elements_all ks') @ B) \<and>
           (p \<noteq> node_id r \<longrightarrow> tl A @ [(p, t, c)] \<noteq> [] \<and> last (tl A @ [(p, t, c)]) = (p, t, c))"
      using False by simp
    then show ?thesis by blast
  qed
qed

lemma textContent_kids:
  "textContent (Element p t c ks) = concat (map textContent ks)"
  by (induction ks) (auto simp: textContent_def)

lemma textContent_text [simp]: "textContent (TextNode i v) = v"
  by (simp add: textContent_def)

lemma textContent_texts: "list_all is_text tp \<Longrightarrow> concat (map textContent tp) = concat (map text_value tp)"
proof (induction tp)
  case Nil
  then show ?case by simp
next
  case (Cons a tp)
  then show ?case by (cases a) auto
qed

lemma below_not_root:
  assumes "distinct (ids r)" "(e, te, ce) \<in> set (elements_below r)"
  shows "e \<noteq> node_id r"
proof -
  obtain j tr cr ksr where r: "r = Element j tr cr ksr"
    using assms(2) by (cases r) (auto simp: elements_below_def)
  have "distinct (map fst (elements_all r))" by (rule elements_distinct[OF assms(1)])
  with r assms(2) show ?thesis by (force simp: elements_below_def)
qed

lemma dom_update_root: "(st :: dom)\<lparr>root := x\<rparr> = \<lparr>root = x, next_id = next_id st\<rparr>"
  by (cases st) simp

lemma elements_below_distinct:
  assumes "distinct (ids r)"
  shows "distinct (map fst (elements_below r))"
proof (cases r)
  case (TextNode i v)
  then show ?thesis by (simp add: elements_below_def)
next
  case (Element i t c ks)
  have "distinct (map fst (elements_all r))" by (rule elements_distinct[OF assms])
  with Element show ?thesis by (simp add: elements_below_def)
qed

lemma spans_replace:
  assumes d: "distinct (ids r)" and nt: "\<not> is_text r"
    and f: "find_node p r = Some (Element p t c ks)"
    and new: "list_all (\<lambda>x. fst (snd x) = ''span'') (concat (map elements_all ks'))"
    and sp: "spans_below r"
  shows "spans_below (replace_node p (Element p t c' ks') r)"
proof -
  from elements_below_replace[OF d nt f] obtain X Y where
    eb: "elements_below r = X @ concat (map elements_all ks) @ Y"
    and eb': "\<And>c' ks'. elements_below (replace_node p (Element p t c' ks') r) =
                       (if p = node_id r then X else butlast X @ [(p, t, c')]) @
                       concat (map elements_all ks') @ Y"
    and lx: "p \<noteq> node_id r \<longrightarrow> X \<noteq> [] \<and> last X = (p, t, c)" by blast
  let ?P = "\<lambda>x :: nat \<times> string \<times> string list. fst (snd x) = ''span''"
  from sp eb have X: "list_all ?P X" and Y: "list_all ?P Y" by (auto simp: spans_below_def)
  have "list_all ?P (if p = node_id r then X else butlast X @ [(p, t, c')])"
  proof (cases "p = node_id r")
    case True
    with X show ?thesis by simp
  next
    case False
    with lx have x: "X = butlast X @ [(p, t, c)]" using append_butlast_last_id[of X] by simp
    then have "list_all ?P (butlast X @ [(p, t, c)])" using X by simp
    then show ?thesis using False by simp
  qed
  with new Y show ?thesis unfolding spans_below_def eb' by simp
qed

lemma normalized_replace_kids:
  assumes d: "distinct (ids r)" and f: "find_node p r = Some (Element p t c ks)"
    and n: "normalized r"
    and new: "\<not> adjacent_text ks \<and> list_all normalized ks \<longrightarrow> \<not> adjacent_text ks' \<and> list_all normalized ks'"
  shows "normalized (replace_node p (Element p t c' ks') r)"
proof -
  from find_node_normalized[OF f n] new have "normalized (Element p t c' ks')" by simp
  from normalized_replace[OF d f _ _ n this] show ?thesis by simp
qed

lemma adjacent_wrap:
  assumes "\<not> adjacent_text (pre @ TextNode n v # post)"
  shows "\<not> adjacent_text (pre @ Element a ta ca ka # post)"
    and "\<not> adjacent_text (pre @ Element a ta ca ka # TextNode n w # post)"
    and "\<not> adjacent_text (pre @ TextNode n w # Element a ta ca ka # post)"
    and "\<not> adjacent_text (pre @ TextNode n w # Element a ta ca ka # TextNode m u # post)"
  using assms by (auto simp: adjacent_text_append adjacent_text_Cons)

lemma applyToWholeNode_shape:
  assumes w: "wf st" and l: "leaves cls False (root st) = A @ (n, v, b) # B"
    and r: "applyToWholeNode cls st n = Some (st', a)"
  shows "(spans_below (root st) \<longrightarrow> spans_below (root st')) \<and>
         (normalized (root st) \<longrightarrow> normalized (root st'))"
proof -
  from w have d: "distinct (ids (root st))" and nt: "\<not> is_text (root st)" by (auto simp: wf_def)
  from leaf_context[OF w l] obtain p t c pre post where
    pn: "parentNode n (root st) = Some (Element p t c (pre @ TextNode n v # post))" by blast
  note wp = wf_parent[OF w pn]
  show ?thesis
  proof (cases "length (pre @ TextNode n v # post) = 1")
    case True
    then have e: "pre = []" "post = []" by auto
    let ?c' = "if cls \<in> set c then c else c @ [cls]"
    have st': "root st' = replace_node p (Element p t ?c' (pre @ TextNode n v # post)) (root st)"
      using applyToWholeNode_single[OF w pn True, of cls] r by auto
    have "spans_below (root st) \<longrightarrow> spans_below (root st')"
      unfolding st' using spans_replace[OF d nt wp(1), of "pre @ TextNode n v # post" ?c'] e
      by (auto simp: spans_below_def)
    moreover have "normalized (root st) \<longrightarrow> normalized (root st')"
      unfolding st' using normalized_replace_kids[OF d wp(1), of "pre @ TextNode n v # post" ?c'] by auto
    ultimately show ?thesis by simp
  next
    case False
    let ?ks' = "pre @ Element (next_id st) ''span'' [cls] [TextNode n v] # post"
    have st': "root st' = replace_node p (Element p t c ?ks') (root st)"
      using applyToWholeNode_wrap_at[OF w pn refl _ False, of cls] r by auto
    have "spans_below (root st) \<longrightarrow> spans_below (root st')"
    proof
      assume sp: "spans_below (root st)"
      from elements_below_replace[OF d nt wp(1)] obtain X Y where
        "elements_below (root st) = X @ concat (map elements_all (pre @ TextNode n v # post)) @ Y" by blast
      with sp have "list_all (\<lambda>x. fst (snd x) = ''span'') (concat (map elements_all (pre @ TextNode n v # post)))"
        by (simp add: spans_below_def)
      then have "list_all (\<lambda>x. fst (snd x) = ''span'') (concat (map elements_all ?ks'))" by simp
      from spans_replace[OF d nt wp(1) this sp] show "spans_below (root st')" unfolding st' .
    qed
    moreover have "normalized (root st) \<longrightarrow> normalized (root st')"
    proof
      assume n: "normalized (root st)"
      show "normalized (root st')" unfolding st'
        by (rule normalized_replace_kids[OF d wp(1) n]) (auto dest: adjacent_wrap(1))
    qed
    ultimately show ?thesis by simp
  qed
qed

lemma applyToNode_shape:
  assumes w: "wf st" and l: "leaves cls False (root st) = A @ (n, v, b) # B"
    and r: "applyToNode cls st n s e = Some (st', aff)"
  shows "(spans_below (root st) \<longrightarrow> spans_below (root st')) \<and>
         (normalized (root st) \<longrightarrow> normalized (root st'))"
proof -
  from w have d: "distinct (ids (root st))" and nt: "\<not> is_text (root st)" by (auto simp: wf_def)
  from leaf_context[OF w l] obtain p t c pre post where
    pn: "parentNode n (root st) = Some (Element p t c (pre @ TextNode n v # post))" by blast
  note wp = wf_parent[OF w pn]
  have nv: "nodeValue n (root st) = Some v"
    using nodeValue_of_child[OF _ pn] w by (simp add: wf_def)
  let ?P = "\<lambda>x :: nat \<times> string \<times> string list. fst (snd x) = ''span''"
  have kids: "spans_below (root st) \<Longrightarrow> list_all ?P (concat (map elements_all (pre @ TextNode n v # post)))"
  proof -
    assume sp: "spans_below (root st)"
    from elements_below_replace[OF d nt wp(1)] obtain X Y where
      "elements_below (root st) = X @ concat (map elements_all (pre @ TextNode n v # post)) @ Y" by blast
    with sp show ?thesis by (simp add: spans_below_def)
  qed
  consider (same) "s = e" | (whole) "s \<noteq> e" "s = 0" "e = int (length v)"
    | (head) "s \<noteq> e" "s = 0" "e \<noteq> int (length v)" | (mid) "s \<noteq> e" "s \<noteq> 0" by blast
  then show ?thesis
  proof cases
    case same
    with r show ?thesis by (simp add: applyToNode_def)
  next
    case whole
    with r nv obtain a where "applyToWholeNode cls st n = Some (st', a)"
      by (auto simp: applyToNode_def split: option.splits)
    from applyToWholeNode_shape[OF w l this] show ?thesis .
  next
    case head
    let ?ks' = "pre @ Element (next_id st) ''span'' [cls] [TextNode (next_id st + 1) (substring v 0 e)]
                    # TextNode n (substring v e (int (length v))) # post"
    have st': "root st' = replace_node p (Element p t c ?ks') (root st)"
      using applyToNode_head[OF w pn, of e cls] head r by auto
    have "spans_below (root st) \<longrightarrow> spans_below (root st')"
    proof
      assume sp: "spans_below (root st)"
      from kids[OF sp] have "list_all ?P (concat (map elements_all ?ks'))" by simp
      from spans_replace[OF d nt wp(1) this sp] show "spans_below (root st')" unfolding st' .
    qed
    moreover have "normalized (root st) \<longrightarrow> normalized (root st')"
    proof
      assume n: "normalized (root st)"
      show "normalized (root st')" unfolding st'
        by (rule normalized_replace_kids[OF d wp(1) n]) (auto dest: adjacent_wrap(2))
    qed
    ultimately show ?thesis by simp
  next
    case mid
    let ?tail = "if e < int (length v)
                           then [TextNode (next_id st + 2) (substring v e (int (length v)))] else []"
    let ?ks' = "pre @ TextNode n (substring v 0 s)
                        # Element (next_id st) ''span'' [cls] [TextNode (next_id st + 1) (substring v s e)]
                        # ?tail @ post"
    have st': "root st' = replace_node p (Element p t c ?ks') (root st)"
      using applyToNode_middle[OF w pn mid(2) mid(1), of cls] r by auto
    have "spans_below (root st) \<longrightarrow> spans_below (root st')"
    proof
      assume sp: "spans_below (root st)"
      from kids[OF sp] have "list_all ?P (concat (map elements_all ?ks'))" by simp
      from spans_replace[OF d nt wp(1) this sp] show "spans_below (root st')" unfolding st' .
    qed
    moreover have "normalized (root st) \<longrightarrow> normalized (root st')"
    proof
      assume n: "normalized (root st)"
      show "normalized (root st')" unfolding st'
        by (rule normalized_replace_kids[OF d wp(1) n]) (auto dest: adjacent_wrap(3,4))
    qed
    ultimately show ?thesis by simp
  qed
qed

section \<open>The groups of the resolver\<close>

lemma pairs_le_selection: "\<forall>x\<in>set sels. fst x \<le> snd x \<Longrightarrow> pairs_le (selection_positions sels)"
  by (induction sels rule: selection_positions.induct) auto

lemma group_ok_single: "0 \<le> k \<Longrightarrow> group_ok W [(n, k)]"
  by (simp add: group_ok_def)

lemma group_ok_empty: "group_ok W []"
  by (simp add: group_ok_def)

lemma group_ok_end:
  assumes "cur \<noteq> []" "\<forall>x\<in>set cur. 0 \<le> snd x" "fst ` set cur \<subseteq> W" "n \<in> W" "0 \<le> k"
    "length cur = 1 \<and> fst (hd cur) = n \<longrightarrow> snd (hd cur) \<le> k"
  shows "group_ok W (cur @ [(n, k)])"
proof -
  have "length (cur @ [(n, k)]) = 2 \<and> fst ((cur @ [(n, k)]) ! 0) = fst ((cur @ [(n, k)]) ! 1) \<longrightarrow>
        snd ((cur @ [(n, k)]) ! 0) \<le> snd ((cur @ [(n, k)]) ! 1)"
  proof
    assume a: "length (cur @ [(n, k)]) = 2 \<and> fst ((cur @ [(n, k)]) ! 0) = fst ((cur @ [(n, k)]) ! 1)"
    then obtain x where x: "cur = [x]" by (cases cur) auto
    with a assms(6) show "snd ((cur @ [(n, k)]) ! 0) \<le> snd ((cur @ [(n, k)]) ! 1)" by simp
  qed
  with assms show ?thesis by (auto simp: group_ok_def)
qed

lemma scan_ok:
  assumes "\<forall>g\<in>set done. group_ok W g" "V \<subseteq> W" "n \<in> V" "ws \<le> we + 1"
    and "cur_ok V n (min (pos - ws) (we - ws + 1)) finding pos poss cur"
  shows "case scan_node n ws we pos poss finding done cur of
           Returned gs \<Rightarrow> (\<forall>g\<in>set gs. group_ok W g)
         | Searching pos' poss' f' done' cur' \<Rightarrow>
             (\<forall>g\<in>set done'. group_ok W g) \<and> cur_ok V n (we - ws + 1) f' pos' poss' cur'"
  using assms
proof (induction poss arbitrary: pos finding "done" cur)
  case Nil
  show ?case
  proof (cases "ws \<le> pos \<and> pos \<le> we")
    case False
    with Nil show ?thesis by (auto simp: cur_ok_def)
  next
    case True
    show ?thesis
    proof (cases finding)
      case True
      with Nil.prems(5) have c: "cur \<noteq> []" "\<forall>x\<in>set cur. 0 \<le> snd x" "fst ` set cur \<subseteq> W"
        "length cur = 1 \<and> fst (hd cur) = n \<longrightarrow> snd (hd cur) \<le> pos - ws"
        using Nil.prems(2) by (auto simp: cur_ok_def)
      have "group_ok W (cur @ [(n, pos - ws)])"
        by (rule group_ok_end[OF c(1,2,3) _ _ c(4)]) (use Nil.prems \<open>ws \<le> pos \<and> pos \<le> we\<close> in auto)
      with True \<open>ws \<le> pos \<and> pos \<le> we\<close> Nil.prems(1) show ?thesis by (auto simp: group_ok_empty)
    next
      case False
      with Nil.prems(5) have "cur = []" by (simp add: cur_ok_def)
      with False True Nil.prems(1) show ?thesis by (auto simp: group_ok_single)
    qed
  qed
next
  case (Cons p ps)
  show ?case
  proof (cases "ws \<le> pos \<and> pos \<le> we")
    case False
    with Cons.prems show ?thesis by (auto simp: cur_ok_def)
  next
    case m: True
    show ?thesis
    proof (cases finding)
      case True
      with Cons.prems(5) have c: "cur \<noteq> []" "\<forall>x\<in>set cur. 0 \<le> snd x" "fst ` set cur \<subseteq> W"
        "length cur = 1 \<and> fst (hd cur) = n \<longrightarrow> snd (hd cur) \<le> pos - ws"
        and pl: "pairs_le (p # ps)"
        using Cons.prems(2) by (auto simp: cur_ok_def)
      have g: "group_ok W (cur @ [(n, pos - ws)])"
        by (rule group_ok_end[OF c(1,2,3) _ _ c(4)]) (use Cons.prems m in auto)
      have d: "\<forall>g\<in>set (done @ [cur @ [(n, pos - ws)]]). group_ok W g" using g Cons.prems(1) by auto
      have co: "cur_ok V n (min (p - ws) (we - ws + 1)) False p ps []" using pl by (simp add: cur_ok_def)
      from Cons.IH[OF d Cons.prems(2,3,4) co] True m show ?thesis by simp
    next
      case False
      with Cons.prems(5) have c: "cur = []" and pl: "pairs_le (pos # p # ps)" by (auto simp: cur_ok_def)
      have co: "cur_ok V n (min (p - ws) (we - ws + 1)) True p ps ([] @ [(n, pos - ws)])"
        using pl m Cons.prems(3) by (auto simp: cur_ok_def)
      from Cons.IH[OF Cons.prems(1,2,3,4) co] False m c show ?thesis by simp
    qed
  qed
qed

lemma walk_ok:
  assumes "\<forall>g\<in>set done. group_ok W g" "V \<subseteq> W" "fst ` set nodes \<subseteq> W" "fst ` set nodes \<inter> V = {}"
    and "0 \<le> snd lastN" "finding \<longrightarrow> fst lastN \<in> W"
    and "cur_ok V (fst lastN) (snd lastN) finding pos poss cur"
    and "distinct (map fst nodes)"
  shows "\<forall>g\<in>set (walk nodes lastN ws pos poss finding done cur). group_ok W g"
  using assms
proof (induction nodes arbitrary: V lastN ws pos poss finding "done" cur)
  case Nil
  have "group_ok W (cur @ [lastN])"
  proof (cases finding)
    case True
    with Nil.prems(7) have c: "cur \<noteq> []" "\<forall>x\<in>set cur. 0 \<le> snd x" "fst ` set cur \<subseteq> W"
        "length cur = 1 \<and> fst (hd cur) = fst lastN \<longrightarrow> snd (hd cur) \<le> snd lastN"
      using Nil.prems(2) by (auto simp: cur_ok_def)
    have "group_ok W (cur @ [(fst lastN, snd lastN)])"
      by (rule group_ok_end[OF c(1,2,3) _ _ c(4)]) (use Nil.prems True in auto)
    then show ?thesis by simp
  next
    case False
    with Nil.prems(7) have "cur = []" by (simp add: cur_ok_def)
    then show ?thesis using group_ok_single[OF Nil.prems(5), of W "fst lastN"] by simp
  qed
  with Nil.prems(1) show ?case by simp
next
  case (Cons a nodes)
  obtain n v where a: "a = (n, v)" by (cases a)
  let ?len = "int (length v)"
  let ?we = "ws + ?len - 1"
  let ?cur1 = "if finding \<and> pos > ?we then cur @ [(n, 0)] else cur"
  have nV: "n \<notin> V" and nW: "n \<in> W" using Cons.prems(3,4) a by auto
  have VW: "insert n V \<subseteq> W" using Cons.prems(2) nW by simp
  have co1: "cur_ok (insert n V) n (min (pos - ws) (?we - ws + 1)) finding pos poss ?cur1"
  proof (cases finding)
    case True
    with Cons.prems(7) have c: "cur \<noteq> []" "\<forall>x\<in>set cur. 0 \<le> snd x" "fst ` set cur \<subseteq> V" "pairs_le poss"
      by (auto simp: cur_ok_def)
    have "fst (hd cur) \<in> V" using c(1,3) by (cases cur) auto
    with nV have "fst (hd cur) \<noteq> n" by auto
    with c True show ?thesis by (auto simp: cur_ok_def)
  next
    case False
    with Cons.prems(7) show ?thesis by (simp add: cur_ok_def)
  qed
  have wswe: "ws \<le> ?we + 1" by simp
  note sc = scan_ok[OF Cons.prems(1) VW _ wswe co1, simplified]
  show ?case
  proof (cases "scan_node n ws ?we pos poss finding done ?cur1")
    case (Returned gs)
    with sc show ?thesis by (simp add: a Let_def)
  next
    case (Searching pos' poss' f' done' cur')
    with sc have d': "\<forall>g\<in>set done'. group_ok W g"
      and co': "cur_ok (insert n V) n ?len f' pos' poss' cur'" by auto
    have "\<forall>g\<in>set (walk nodes (n, ?len) (ws + ?len) pos' poss' f' done' cur'). group_ok W g"
    proof (rule Cons.IH[OF d' VW])
      show "fst ` set nodes \<subseteq> W" using Cons.prems(3) by auto
      show "fst ` set nodes \<inter> insert n V = {}" using Cons.prems(4,8) a by auto
      show "distinct (map fst nodes)" using Cons.prems(8) by simp
      show "0 \<le> snd (n, ?len)" by simp
      show "f' \<longrightarrow> fst (n, ?len) \<in> W" using nW by simp
      show "cur_ok (insert n V) (fst (n, ?len)) (snd (n, ?len)) f' pos' poss' cur'" using co' by simp
    qed
    with Searching show ?thesis by (simp add: a Let_def)
  qed
qed

lemma treeWalker_text_nodes: "\<not> is_text r \<Longrightarrow> treeWalker r = text_nodes r"
  by (cases r) (auto simp: treeWalker_def)

lemma text_nodes_distinct: "distinct (ids r) \<Longrightarrow> distinct (map fst (text_nodes r))"
proof -
  assume "distinct (ids r)"
  from leaves_distinct[OF this, of "[]" False] have "distinct (map fst (leaves [] False r))" .
  moreover have "map fst (text_nodes r) = map fst (leaves [] False r)"
    by (simp add: text_nodes_leaves[of r "[]" False] comp_def case_prod_unfold)
  ultimately show ?thesis by simp
qed

lemma last_visited_nonneg: "0 \<le> snd (last_visited r)"
  by (auto simp: last_visited_def root_last_def split: list.splits node.splits)

lemma groups_ok:
  assumes d: "distinct (ids r)" and nt: "\<not> is_text r" and le: "\<forall>x\<in>set sels. fst x \<le> snd x"
  shows "\<forall>g\<in>set (findNodeAndOffsetGroups r sels). group_ok (fst ` set (text_nodes r)) g"
proof (cases "selection_positions sels")
  case Nil
  then show ?thesis
    using group_ok_single[OF last_visited_nonneg, of _ "fst (last_visited r)" r]
    by (simp add: findNodeAndOffsetGroups_def)
next
  case (Cons pos poss)
  let ?W = "fst ` set (text_nodes r)"
  have pl: "pairs_le (pos # poss)" using pairs_le_selection[OF le] Cons by simp
  have "\<forall>g\<in>set (walk (text_nodes r) (root_last r) 0 pos poss False [] []). group_ok ?W g"
  proof (rule walk_ok[where V = "{}"])
    show "0 \<le> snd (root_last r)" by (auto simp: root_last_def split: node.splits)
    show "cur_ok {} (fst (root_last r)) (snd (root_last r)) False pos poss []"
      using pl by (simp add: cur_ok_def)
    show "distinct (map fst (text_nodes r))" by (rule text_nodes_distinct[OF d])
  qed auto
  then show ?thesis using Cons nt by (simp add: findNodeAndOffsetGroups_def treeWalker_text_nodes)
qed

section \<open>The invariant of applyToRanges\<close>

lemma applyToNode_keeps:
  assumes k: "keeps W T S N st" and n: "n \<in> W" and s: "0 \<le> s"
    and e: "s \<le> e \<or> (\<exists>v. nodeValue n (root st) = Some v \<and> e = int (length v))"
  shows "\<exists>st' aff. applyToNode cls st n s e = Some (st', aff) \<and> keeps W T S N st'"
proof -
  from k have w: "wf st" and W: "W \<subseteq> fst ` set (text_nodes (root st))"
    and T: "textContent (root st) = T"
    and sh: "S \<longrightarrow> spans_below (root st)" "N \<longrightarrow> normalized (root st)" by (auto simp: keeps_def)
  from leaf_split[of n "root st" cls] n W obtain A v b B where
    l: "leaves cls False (root st) = A @ (n, v, b) # B" by blast
  from leaf_nodeValue[OF w l] e have e': "s \<le> e \<or> e = int (length v)" by auto
  from applyToNode_leaves[OF w l, of s e] obtain st' aff where
    r: "applyToNode cls st n s e = Some (st', aff)" and w': "wf st'"
    and l': "leaves cls False (root st') = A @ pieces n v b (next_id st) s e @ B" by blast
  have "textContent (root st') = textContent (root st)"
    using l l' pieces_text[OF s e', of n b "next_id st"]
    by (simp add: textContent_leaves[of _ cls False])
  moreover have "fst ` set (text_nodes (root st)) \<subseteq> fst ` set (text_nodes (root st'))"
    using l l' pieces_has_node[of n v b "next_id st" s e]
    by (auto simp: text_ids_leaves[of _ cls False])
  moreover note applyToNode_shape[OF w l r]
  ultimately have "keeps W T S N st'" using w' W T sh by (auto simp: keeps_def)
  with r show ?thesis by blast
qed

lemma applyToWholeNode_keeps:
  assumes k: "keeps W T S N st" and n: "n \<in> W"
  shows "\<exists>st' a. applyToWholeNode cls st n = Some (st', a) \<and> keeps W T S N st'"
proof -
  from k have w: "wf st" and W: "W \<subseteq> fst ` set (text_nodes (root st))"
    and T: "textContent (root st) = T"
    and sh: "S \<longrightarrow> spans_below (root st)" "N \<longrightarrow> normalized (root st)" by (auto simp: keeps_def)
  from leaf_split[of n "root st" cls] n W obtain A v b B where
    l: "leaves cls False (root st) = A @ (n, v, b) # B" by blast
  from applyToWholeNode_leaves[OF w l] obtain st' a where
    r: "applyToWholeNode cls st n = Some (st', a)" and w': "wf st'"
    and l': "leaves cls False (root st') = A @ (n, v, True) # B" by blast
  have "textContent (root st') = textContent (root st)"
    using l l' by (simp add: textContent_leaves[of _ cls False])
  moreover have "fst ` set (text_nodes (root st)) \<subseteq> fst ` set (text_nodes (root st'))"
    using l l' by (auto simp: text_ids_leaves[of _ cls False])
  moreover note applyToWholeNode_shape[OF w l r]
  ultimately have "keeps W T S N st'" using w' W T sh by (auto simp: keeps_def)
  with r show ?thesis by blast
qed

lemma keeps_nodeValue:
  assumes k: "keeps W T S N st" and n: "n \<in> W"
  shows "\<exists>v. nodeValue n (root st) = Some v"
proof -
  from k have w: "wf st" and W: "W \<subseteq> fst ` set (text_nodes (root st))" by (auto simp: keeps_def)
  from leaf_split[of n "root st" "[]"] n W obtain A v b B where
    l: "leaves [] False (root st) = A @ (n, v, b) # B" by blast
  from leaf_nodeValue[OF w l] show ?thesis by blast
qed

lemma interior_loop_wrap_each:
  "i \<le> length (tl g) \<Longrightarrow>
   interior_loop cls g i st aff = wrap_each cls (rev (map fst (take i (tl g)))) st aff"
proof (induction i arbitrary: st aff)
  case 0
  then show ?case by simp
next
  case (Suc i)
  then have i: "i < length (tl g)" by simp
  then have tk: "take (Suc i) (tl g) = take i (tl g) @ [tl g ! i]" by (simp add: take_Suc_conv_app_nth)
  have nth: "tl g ! i = g ! Suc i" using i by (cases g) auto
  have il: "i \<le> length (tl g)" using i by simp
  show ?case
    using Suc.IH[OF il] tk nth by (simp split: option.splits)
qed

lemma applyToGroup_multi:
  assumes "2 \<le> length g" "\<not> (length g = 2 \<and> fst (g ! 0) = fst (g ! 1))"
  shows "applyToGroup cls st g =
     (case (if 0 < snd (last g) then applyToNode cls st (fst (last g)) 0 (snd (last g))
            else Some (st, [])) of
        None \<Rightarrow> None
      | Some (st1, a1) \<Rightarrow>
          (case wrap_each cls (rev (map fst (butlast (tl g)))) st1 a1 of
             None \<Rightarrow> None
           | Some (st2, a2) \<Rightarrow>
               (case nodeValue (fst (hd g)) (root st2) of
                  None \<Rightarrow> None
                | Some hv \<Rightarrow>
                    (case applyToNode cls st2 (fst (hd g)) (snd (hd g)) (int (length hv)) of
                       None \<Rightarrow> None
                     | Some (st3, a3) \<Rightarrow> Some (st3, rev (a2 @ a3))))))"
proof -
  have "g \<noteq> []" using assms(1) by auto
  then have l: "g ! (length g - 1) = last g" by (simp add: last_conv_nth)
  have h: "g ! 0 = hd g" using \<open>g \<noteq> []\<close> by (cases g) auto
  have le: "length g - 2 \<le> length (tl g)" by simp
  have bl: "take (length g - 2) (tl g) = butlast (tl g)"
    by (simp add: butlast_conv_take numeral_2_eq_2)
  have il: "\<And>st aff. interior_loop cls g (length g - 2) st aff =
      wrap_each cls (rev (map fst (butlast (tl g)))) st aff"
    using interior_loop_wrap_each[OF le] by (simp only: bl)
  show ?thesis
    using assms unfolding applyToGroup_def Let_def l il h[symmetric] by auto
qed

lemma wrap_each_keeps:
  assumes "keeps W T S N st" "set ns \<subseteq> W"
  shows "\<exists>st' aff'. wrap_each cls ns st aff = Some (st', aff') \<and> keeps W T S N st'"
  using assms
proof (induction ns arbitrary: st aff)
  case Nil
  then show ?case by simp
next
  case (Cons n ns)
  have n: "n \<in> W" and rest: "set ns \<subseteq> W" using Cons.prems(2) by auto
  show ?case
  proof (cases "nodeValue n (root st) = Some [CHR 0x0A]")
    case True
    with Cons.IH[OF Cons.prems(1) rest] show ?thesis by simp
  next
    case False
    from applyToWholeNode_keeps[OF Cons.prems(1) n, of cls] obtain st1 a where
      r: "applyToWholeNode cls st n = Some (st1, a)" and k1: "keeps W T S N st1" by blast
    from Cons.IH[OF k1 rest, of "aff @ [a]"] False r show ?thesis by simp
  qed
qed

lemma applyToGroup_keeps:
  assumes k: "keeps W T S N st" and g: "group_ok W g"
  shows "\<exists>st' aff. applyToGroup cls st g = Some (st', aff) \<and> keeps W T S N st'"
proof -
  from g have off: "\<forall>x\<in>set g. 0 \<le> snd x" and nodes: "2 \<le> length g \<longrightarrow> fst ` set g \<subseteq> W"
    and same: "length g = 2 \<and> fst (g ! 0) = fst (g ! 1) \<longrightarrow> snd (g ! 0) \<le> snd (g ! 1)"
    by (auto simp: group_ok_def)
  consider (one) "length g = 2 \<and> fst (g ! 0) = fst (g ! 1)"
    | (many) "\<not> (length g = 2 \<and> fst (g ! 0) = fst (g ! 1))" "2 \<le> length g"
    | (none) "\<not> 2 \<le> length g" by blast
  then show ?thesis
  proof cases
    case one
    then have "g ! 0 \<in> set g" by (simp add: nth_mem)
    with nodes off one have n: "fst (g ! 0) \<in> W" and s: "0 \<le> snd (g ! 0)" by auto
    from applyToNode_keeps[OF k n s, of "snd (g ! 1)" cls] same one obtain st' aff where
      "applyToNode cls st (fst (g ! 0)) (snd (g ! 0)) (snd (g ! 1)) = Some (st', aff)" "keeps W T S N st'"
      by blast
    with one show ?thesis by (simp add: applyToGroup_def)
  next
    case many
    then have ne: "g \<noteq> []" by auto
    have sub: "fst ` set g \<subseteq> W" using nodes many(2) by simp
    have tW: "fst (last g) \<in> W" using sub ne last_in_set[OF ne] by blast
    have hW: "fst (hd g) \<in> W" using sub ne hd_in_set[OF ne] by blast
    have hs: "0 \<le> snd (hd g)" using off hd_in_set[OF ne] by blast
    have "set (butlast (tl g)) \<subseteq> set (tl g)" by (auto dest: in_set_butlastD)
    moreover have "set (tl g) \<subseteq> set g" using ne by (cases g) auto
    ultimately have "set (butlast (tl g)) \<subseteq> set g" by blast
    then have iW: "set (rev (map fst (butlast (tl g)))) \<subseteq> W" using sub by auto
    have "\<exists>st1 a1. (if 0 < snd (last g) then applyToNode cls st (fst (last g)) 0 (snd (last g))
                    else Some (st, [])) = Some (st1, a1) \<and> keeps W T S N st1"
    proof (cases "0 < snd (last g)")
      case True
      from applyToNode_keeps[OF k tW, of 0 "snd (last g)" cls] True show ?thesis by auto
    next
      case False
      with k show ?thesis by simp
    qed
    then obtain st1 a1 where
      r1: "(if 0 < snd (last g) then applyToNode cls st (fst (last g)) 0 (snd (last g))
            else Some (st, [])) = Some (st1, a1)"
      and k1: "keeps W T S N st1" by blast
    from wrap_each_keeps[OF k1 iW, of cls a1] obtain st2 a2 where
      r2: "wrap_each cls (rev (map fst (butlast (tl g)))) st1 a1 = Some (st2, a2)"
      and k2: "keeps W T S N st2" by blast
    from keeps_nodeValue[OF k2 hW] obtain hv where hv: "nodeValue (fst (hd g)) (root st2) = Some hv" by blast
    from applyToNode_keeps[OF k2 hW hs, of "int (length hv)" cls] hv obtain st3 a3 where
      r3: "applyToNode cls st2 (fst (hd g)) (snd (hd g)) (int (length hv)) = Some (st3, a3)"
      and k3: "keeps W T S N st3" by blast
    have "applyToGroup cls st g = Some (st3, rev (a2 @ a3))"
      unfolding applyToGroup_multi[OF many(2,1)] r1 using r2 hv r3 by simp
    with k3 show ?thesis by blast
  next
    case none
    with k show ?thesis by (simp add: applyToGroup_def)
  qed
qed

lemma groups_loop_keeps:
  assumes "keeps W T S N st" "\<forall>g\<in>set gs. group_ok W g"
  shows "\<exists>st' r. groups_loop cls gs st acc = Some (st', r) \<and> keeps W T S N st'"
  using assms
proof (induction gs arbitrary: st acc)
  case Nil
  then show ?case by simp
next
  case (Cons g gs)
  from applyToGroup_keeps[OF Cons.prems(1), of g cls] Cons.prems(2) obtain st1 a where
    r: "applyToGroup cls st g = Some (st1, a)" and k1: "keeps W T S N st1" by auto
  from Cons.IH[OF k1, of "acc @ [a]"] Cons.prems(2) r show ?case by simp
qed

section \<open>clear\<close>

lemma merged_not_adjacent:
  assumes "\<not> adjacent_text (pre @ e # post)" "\<not> is_text e"
  shows "\<not> adjacent_text (merged pre tn v post)"
proof -
  from assms have np: "\<not> adjacent_text pre" and nq: "\<not> adjacent_text post"
    by (auto simp: adjacent_text_append adjacent_text_Cons)
  let ?pre' = "if pre \<noteq> [] \<and> is_text (last pre) then butlast pre else pre"
  let ?post' = "if post \<noteq> [] \<and> is_text (hd post) then tl post else post"
  have p1: "\<not> adjacent_text ?pre'" and p2: "?pre' = [] \<or> \<not> is_text (last ?pre')"
  proof -
    have "\<not> adjacent_text ?pre' \<and> (?pre' = [] \<or> \<not> is_text (last ?pre'))"
    proof (cases "pre \<noteq> [] \<and> is_text (last pre)")
      case True
      then obtain bp l where pre: "pre = bp @ [l]" by (cases pre rule: rev_cases) auto
      with np True have "\<not> adjacent_text bp \<and> (bp = [] \<or> \<not> is_text (last bp))"
        by (auto simp: adjacent_text_append)
      with pre True show ?thesis by simp
    next
      case False
      with np show ?thesis by auto
    qed
    then show "\<not> adjacent_text ?pre'" and "?pre' = [] \<or> \<not> is_text (last ?pre')" by blast+
  qed
  have q1: "\<not> adjacent_text ?post'" and q2: "?post' = [] \<or> \<not> is_text (hd ?post')"
  proof -
    show "\<not> adjacent_text ?post'" using nq by (cases post) (auto simp: adjacent_text_Cons)
    show "?post' = [] \<or> \<not> is_text (hd ?post')" using nq by (cases post) (auto simp: adjacent_text_Cons)
  qed
  show ?thesis
    unfolding merged_def using p1 p2 q1 q2
    by (simp add: adjacent_text_append adjacent_text_Cons del: adjacent_text.simps)
qed

lemma merged_split:
  "\<exists>pre' tp tq post'. pre = pre' @ tp \<and> post = tq @ post' \<and> list_all is_text tp \<and> list_all is_text tq \<and>
     merged pre tn v post =
       pre' @ TextNode tn (concat (map text_value tp) @ v @ concat (map text_value tq)) # post'"
proof -
  let ?a = "pre \<noteq> [] \<and> is_text (last pre)"
  let ?b = "post \<noteq> [] \<and> is_text (hd post)"
  let ?pre' = "if ?a then butlast pre else pre"
  let ?tp = "if ?a then [last pre] else []"
  let ?tq = "if ?b then [hd post] else []"
  let ?post' = "if ?b then tl post else post"
  have "pre = ?pre' @ ?tp \<and> post = ?tq @ ?post' \<and> list_all is_text ?tp \<and> list_all is_text ?tq \<and>
     merged pre tn v post =
       ?pre' @ TextNode tn (concat (map text_value ?tp) @ v @ concat (map text_value ?tq)) # ?post'"
    by (simp add: merged_def)
  then show ?thesis by blast
qed

lemma merge_previous_at:
  assumes d: "distinct (map node_id (pre @ TextNode tn v # post))"
  shows "merge_previous (Element p t c (pre @ TextNode tn v # post)) tn =
           Element p t c ((if pre \<noteq> [] \<and> is_text (last pre) then butlast pre else pre) @
              TextNode tn ((if pre \<noteq> [] \<and> is_text (last pre) then text_value (last pre) else []) @ v) # post)"
proof -
  have npre: "tn \<notin> node_id ` set pre" and npost: "tn \<notin> node_id ` set post" using d by auto
  have ps: "previous_sibling tn (pre @ TextNode tn v # post) = (if pre = [] then None else Some (last pre))"
    using previous_sibling_at[OF npre npost, of "TextNode tn v"] by simp
  have ch: "child tn (pre @ TextNode tn v # post) = Some (TextNode tn v)"
    using child_at[OF npre, of "TextNode tn v"] by simp
  show ?thesis
  proof (cases "pre \<noteq> [] \<and> is_text (last pre)")
    case False
    then show ?thesis using ps by (cases "last pre") (auto simp: merge_previous_def previousSibling_def)
  next
    case True
    then obtain pi pv where lp: "last pre = TextNode pi pv" by (cases "last pre") auto
    from True have pre: "pre = butlast pre @ [TextNode pi pv]" using lp by (metis append_butlast_last_id)
    have dpi: "pi \<notin> node_id ` set (butlast pre)" "pi \<noteq> tn" "pi \<notin> node_id ` set post"
      using d pre by (metis (no_types, lifting) distinct_append distinct.simps(2) image_set list.simps(9) map_append
          node_id.simps(1) not_distinct_conv_prefix append.assoc append_Cons in_set_conv_decomp)+
    have up: "map (\<lambda>k. if node_id k = tn then set_value (pv @ v) k else k) (pre @ TextNode tn v # post)
              = pre @ TextNode tn (pv @ v) # post"
      using npre npost by (simp add: map_update_absent)
    have rm: "filter (\<lambda>k. node_id k \<noteq> pi) (pre @ TextNode tn (pv @ v) # post)
              = butlast pre @ TextNode tn (pv @ v) # post"
    proof -
      have "filter (\<lambda>k. node_id k \<noteq> pi) ((butlast pre @ [TextNode pi pv]) @ TextNode tn (pv @ v) # post)
              = butlast pre @ TextNode tn (pv @ v) # post"
        using dpi by (simp add: filter_remove_absent)
      with pre show ?thesis by simp
    qed
    show ?thesis
      using True lp ps ch up rm dpi(2) not_sym[OF dpi(2)]
      by (simp add: merge_previous_def previousSibling_def set_nodeValue_def)
  qed
qed

lemma merge_next_at:
  assumes d: "distinct (map node_id (pre @ TextNode tn v # post))"
  shows "merge_next (Element p t c (pre @ TextNode tn v # post)) tn =
           Element p t c (pre @
              TextNode tn (v @ (if post \<noteq> [] \<and> is_text (hd post) then text_value (hd post) else [])) #
              (if post \<noteq> [] \<and> is_text (hd post) then tl post else post))"
proof -
  have npre: "tn \<notin> node_id ` set pre" and npost: "tn \<notin> node_id ` set post" using d by auto
  have ns: "next_sibling tn (pre @ TextNode tn v # post) = (case post of [] \<Rightarrow> None | y # ys \<Rightarrow> Some y)"
    using next_sibling_at[OF npre, of "TextNode tn v"] by simp
  have ch: "child tn (pre @ TextNode tn v # post) = Some (TextNode tn v)"
    using child_at[OF npre, of "TextNode tn v"] by simp
  show ?thesis
  proof (cases "post \<noteq> [] \<and> is_text (hd post)")
    case False
    then show ?thesis using ns
      by (cases post; cases "hd post") (auto simp: merge_next_def nextSibling_def)
  next
    case True
    then obtain ni nv ys where post: "post = TextNode ni nv # ys"
      by (cases post; cases "hd post") auto
    have dni: "ni \<notin> node_id ` set pre" "ni \<noteq> tn" "ni \<notin> node_id ` set ys"
      using d post by auto
    have up: "map (\<lambda>k. if node_id k = tn then set_value (v @ nv) k else k) (pre @ TextNode tn v # post)
              = pre @ TextNode tn (v @ nv) # post"
      using npre npost by (simp add: map_update_absent)
    have rm: "filter (\<lambda>k. node_id k \<noteq> ni) (pre @ TextNode tn (v @ nv) # TextNode ni nv # ys)
              = pre @ TextNode tn (v @ nv) # ys"
      using dni by (simp add: filter_remove_absent)
    show ?thesis
      using post ns ch up rm dni(2) not_sym[OF dni(2)]
      by (simp add: merge_next_def nextSibling_def set_nodeValue_def)
  qed
qed

lemma clearElement_unwrap:
  assumes w: "wf st" and nb: "Node_bound env" and ca: "serialize ce = cls"
    and pn: "parentNode e (root st) = Some (Element p t c (pre @ Element e te ce [TextNode tn v] # post))"
  shows "clearElement env cls st e =
           Some (st\<lparr>root := replace_node p (Element p t c (merged pre tn v post)) (root st)\<rparr>)"
proof -
  let ?el = "Element e te ce [TextNode tn v]"
  note wp = wf_parent[OF w pn]
  from w have d: "distinct (ids (root st))" by (simp add: wf_def)
  have npre: "e \<notin> node_id ` set pre" and npost: "e \<notin> node_id ` set post" using wp(2) by auto
  have f: "find_node e (root st) = Some ?el"
    using child_found[OF d wp(1), of ?el] by simp
  have dp: "distinct (concat (map ids pre) @ e # tn # concat (map ids post))" using wp(5) by simp
  have tpre: "tn \<notin> node_id ` set pre" and tpost: "tn \<notin> node_id ` set post" and te: "tn \<noteq> e"
    using dp node_ids_in[of tn pre] node_ids_in[of tn post] by auto
  have p0: "map (\<lambda>k. if node_id k = e then removeChild k tn else k) (pre @ ?el # post)
            = pre @ Element e te ce [] # post"
    using npre npost by (simp add: map_update_absent)
  have p1: "insert_before (TextNode tn v) (Some e) (pre @ Element e te ce [] # post)
            = pre @ TextNode tn v # Element e te ce [] # post"
    using insert_before_at[OF npre, of "Element e te ce []"] by simp
  have p2: "filter (\<lambda>k. node_id k \<noteq> e) (pre @ TextNode tn v # Element e te ce [] # post)
            = pre @ TextNode tn v # post"
    using npre npost te by (simp add: filter_remove_absent)
  have d2: "distinct (map node_id (pre @ TextNode tn v # post))"
    using wp(2) tpre tpost by auto
  let ?pre' = "if pre \<noteq> [] \<and> is_text (last pre) then butlast pre else pre"
  let ?pv = "if pre \<noteq> [] \<and> is_text (last pre) then text_value (last pre) else []"
  have d3: "distinct (map node_id (?pre' @ TextNode tn (?pv @ v) # post))"
  proof (cases "pre \<noteq> [] \<and> is_text (last pre)")
    case True
    then have "pre = butlast pre @ [last pre]" by simp
    then have "distinct (map node_id ((butlast pre @ [last pre]) @ TextNode tn v # post))"
      using d2 by simp
    then have "distinct (map node_id (butlast pre @ TextNode tn v # post))" by auto
    with True show ?thesis by simp
  next
    case False
    with d2 show ?thesis by auto
  qed
  have m: "merge_next (merge_previous (Element p t c (pre @ TextNode tn v # post)) tn) tn
         = Element p t c (merged pre tn v post)"
    unfolding merge_previous_at[OF d2] merge_next_at[OF d3] by (simp add: merged_def)
  have q0: "update_child e (\<lambda>k. removeChild k tn) (Element p t c (pre @ ?el # post))
            = Element p t c (pre @ Element e te ce [] # post)"
    using p0 by simp
  have q1: "insertBefore (Element p t c (pre @ Element e te ce [] # post)) (TextNode tn v) (Some e)
            = Element p t c (pre @ TextNode tn v # Element e te ce [] # post)"
    using p1 by simp
  have q2: "removeChild (Element p t c (pre @ TextNode tn v # Element e te ce [] # post)) e
            = Element p t c (pre @ TextNode tn v # post)"
    using p2 by simp
  show ?thesis
    unfolding clearElement_def Let_def
    by (simp add: f pn q0 q1 q2 m nb ca class_attribute_def
          del: update_child.simps insertBefore.simps removeChild.simps)
qed

lemma clearElement_strip:
  assumes f: "find_node e (root st) = Some (Element e te ce ks)" and nb: "Node_bound env"
    and n: "\<not> (serialize ce = cls \<and> (\<exists>tn v. ks = [TextNode tn v]))"
  shows "clearElement env cls st e =
           Some (st\<lparr>root := replace_node e (Element e te (filter (\<lambda>x. x \<noteq> cls) ce) ks) (root st)\<rparr>)"
proof -
  have "\<not> (serialize ce = cls \<and> length ks = 1 \<and> is_text (hd ks))"
  proof
    assume a: "serialize ce = cls \<and> length ks = 1 \<and> is_text (hd ks)"
    then obtain k where "ks = [k]" by (cases ks) auto
    with a obtain tn v where "ks = [TextNode tn v]" by (cases k) auto
    with a n show False by blast
  qed
  with f nb show ?thesis by (auto simp: clearElement_def class_attribute_def)
qed

lemma clearElement_effect:
  assumes w: "wf st" and nb: "Node_bound env" and e: "(e, te, ce) \<in> set (elements_below (root st))"
  shows "\<exists>st' X Y. clearElement env cls st e = Some st' \<and> wf st' \<and> next_id st' = next_id st \<and>
           textContent (root st') = textContent (root st) \<and>
           elements_below (root st) = X @ (e, te, ce) # Y \<and>
           (elements_below (root st') = X @ Y \<or>
            elements_below (root st') = X @ (e, te, filter (\<lambda>x. x \<noteq> cls) ce) # Y) \<and>
           (normalized (root st) \<longrightarrow> normalized (root st'))"
proof -
  from w have d: "distinct (ids (root st))" and nt: "\<not> is_text (root st)" by (auto simp: wf_def)
  from element_below_parent[OF d e] obtain ks p t c pre post where
    f: "find_node e (root st) = Some (Element e te ce ks)"
    and pn: "parentNode e (root st) = Some (Element p t c (pre @ Element e te ce ks # post))" by blast
  note wp = wf_parent[OF w pn]
  show ?thesis
  proof (cases "serialize ce = cls \<and> (\<exists>tn v. ks = [TextNode tn v])")
    case True
    then obtain tn v where ce: "serialize ce = cls" and ks: "ks = [TextNode tn v]" by blast
    let ?par = "Element p t c (pre @ Element e te ce [TextNode tn v] # post)"
    let ?par' = "Element p t c (merged pre tn v post)"
    let ?st = "st\<lparr>root := replace_node p ?par' (root st)\<rparr>"
    have r: "clearElement env cls st e = Some ?st"
      using clearElement_unwrap[OF w nb ce, of e p t c pre te tn v post] pn ks by simp
    from merged_split[of pre post tn v] obtain pre' tp tq post' where
      pre: "pre = pre' @ tp" and post: "post = tq @ post'" and tp: "list_all is_text tp"
      and tq: "list_all is_text tq"
      and m: "merged pre tn v post =
               pre' @ TextNode tn (concat (map text_value tp) @ v @ concat (map text_value tq)) # post'"
      by blast
    have fp: "find_node p (root st) = Some ?par" using wp(1) ce ks by simp
    have dpar: "distinct (ids ?par)" using wp(5) ce ks by simp
    have ids': "ids ?par' = p # concat (map ids pre') @ tn # concat (map ids post')"
      by (simp add: m)
    have idsp: "ids ?par = p # concat (map ids pre') @ concat (map ids tp) @ e # tn #
                  concat (map ids tq) @ concat (map ids post')"
      by (simp add: pre post)
    have "wf \<lparr>root = replace_node p ?par' (root st), next_id = next_id st\<rparr>"
    proof (rule wf_replace[OF w fp])
      show "\<not> is_text ?par'" by simp
      show "distinct (ids ?par')" using dpar unfolding ids' idsp by auto
      show "set (ids ?par') \<subseteq> set (ids ?par) \<union> {i. next_id st \<le> i \<and> i < next_id st}"
        unfolding ids' idsp by auto
    qed simp
    then have w': "wf ?st" by (simp add: dom_update_root)
    have "textContent ?par' = textContent ?par"
      unfolding m unfolding pre post
      by (simp add: textContent_kids textContent_texts[OF tp] textContent_texts[OF tq])
    from textContent_replace[OF d fp this] have t': "textContent (root ?st) = textContent (root st)"
      by simp
    from elements_below_replace[OF d nt fp] obtain X0 Y0 where
      eb: "elements_below (root st) = X0 @ concat (map elements_all (pre @ Element e te ce [TextNode tn v] # post)) @ Y0"
      and eb': "\<And>c' ks'. elements_below (replace_node p (Element p t c' ks') (root st)) =
                       (if p = node_id (root st) then X0 else butlast X0 @ [(p, t, c')]) @
                       concat (map elements_all ks') @ Y0"
      and lx: "p \<noteq> node_id (root st) \<longrightarrow> X0 \<noteq> [] \<and> last X0 = (p, t, c)" by blast
    have x0: "(if p = node_id (root st) then X0 else butlast X0 @ [(p, t, c)]) = X0"
      using lx by (auto simp: snoc_eq_iff_butlast)
    let ?X = "X0 @ concat (map elements_all pre)"
    let ?Y = "concat (map elements_all post) @ Y0"
    have e1: "elements_below (root st) = ?X @ (e, te, ce) # ?Y" using eb ce by simp
    have "concat (map elements_all (merged pre tn v post)) =
            concat (map elements_all pre) @ concat (map elements_all post)"
      unfolding m unfolding pre post by (simp add: elements_texts[OF tp] elements_texts[OF tq])
    then have e2: "elements_below (root ?st) = ?X @ ?Y" using eb'[of c "merged pre tn v post"] x0 by simp
    have n': "normalized (root st) \<longrightarrow> normalized (root ?st)"
    proof
      assume n: "normalized (root st)"
      from find_node_normalized[OF fp n] have np: "normalized ?par" .
      then have na: "\<not> adjacent_text (pre @ Element e te ce [TextNode tn v] # post)"
        and nk: "list_all normalized pre" "list_all normalized post" by auto
      have "\<not> adjacent_text (merged pre tn v post)" by (rule merged_not_adjacent[OF na]) simp
      moreover have "list_all normalized (merged pre tn v post)"
        using nk unfolding m unfolding pre post by simp
      ultimately have "normalized ?par'" by simp
      from normalized_replace[OF d fp _ _ n this] show "normalized (root ?st)" by simp
    qed
    have "clearElement env cls st e = Some ?st \<and> wf ?st \<and> next_id ?st = next_id st \<and>
           textContent (root ?st) = textContent (root st) \<and>
           elements_below (root st) = ?X @ (e, te, ce) # ?Y \<and>
           (elements_below (root ?st) = ?X @ ?Y \<or>
            elements_below (root ?st) = ?X @ (e, te, filter (\<lambda>x. x \<noteq> cls) ce) # ?Y) \<and>
           (normalized (root st) \<longrightarrow> normalized (root ?st))"
      using r w' t' e1 e2 n' by simp
    then show ?thesis by blast
  next
    case False
    let ?el' = "Element e te (filter (\<lambda>x. x \<noteq> cls) ce) ks"
    let ?st = "st\<lparr>root := replace_node e ?el' (root st)\<rparr>"
    have r: "clearElement env cls st e = Some ?st" by (rule clearElement_strip[OF f nb False])
    have del: "distinct (ids (Element e te ce ks))" by (rule find_node_distinct[OF d f])
    have "wf \<lparr>root = replace_node e ?el' (root st), next_id = next_id st\<rparr>"
    proof (rule wf_replace[OF w f])
      show "distinct (ids ?el')" using del by simp
    qed auto
    then have w': "wf ?st" by (simp add: dom_update_root)
    have "textContent ?el' = textContent (Element e te ce ks)" by (simp add: textContent_def)
    from textContent_replace[OF d f this] have t': "textContent (root ?st) = textContent (root st)"
      by simp
    have ne: "e \<noteq> node_id (root st)" by (rule below_not_root[OF d e])
    from elements_below_replace[OF d nt f] ne obtain X0 Y0 where
      eb: "elements_below (root st) = X0 @ concat (map elements_all ks) @ Y0"
      and eb': "\<And>c' ks'. elements_below (replace_node e (Element e te c' ks') (root st)) =
                       (butlast X0 @ [(e, te, c')]) @ concat (map elements_all ks') @ Y0"
      and lx: "X0 \<noteq> [] \<and> last X0 = (e, te, ce)" by auto
    from lx have x0: "X0 = butlast X0 @ [(e, te, ce)]"
      using append_butlast_last_id[of X0] by simp
    let ?X = "butlast X0"
    let ?Y = "concat (map elements_all ks) @ Y0"
    have e1: "elements_below (root st) = ?X @ (e, te, ce) # ?Y"
    proof -
      have "elements_below (root st) = (butlast X0 @ [(e, te, ce)]) @ concat (map elements_all ks) @ Y0"
        using eb x0 by simp
      then show ?thesis by simp
    qed
    have e2: "elements_below (root ?st) = ?X @ (e, te, filter (\<lambda>x. x \<noteq> cls) ce) # ?Y"
      using eb'[of "filter (\<lambda>x. x \<noteq> cls) ce" ks] by simp
    have n': "normalized (root st) \<longrightarrow> normalized (root ?st)"
    proof
      assume n: "normalized (root st)"
      from find_node_normalized[OF f n] have "normalized ?el'" by simp
      from normalized_replace[OF d f _ _ n this] show "normalized (root ?st)" by simp
    qed
    have "clearElement env cls st e = Some ?st \<and> wf ?st \<and> next_id ?st = next_id st \<and>
           textContent (root ?st) = textContent (root st) \<and>
           elements_below (root st) = ?X @ (e, te, ce) # ?Y \<and>
           (elements_below (root ?st) = ?X @ ?Y \<or>
            elements_below (root ?st) = ?X @ (e, te, filter (\<lambda>x. x \<noteq> cls) ce) # ?Y) \<and>
           (normalized (root st) \<longrightarrow> normalized (root ?st))"
      using r w' t' e1 e2 n' by simp
    then show ?thesis by blast
  qed
qed

lemma carriers_tagged: "set (carriers cls r) = fst ` tagged cls r"
  by (force simp: carriers_def tagged_def image_iff)

lemma query_tagged: "set (matching_spans cls r) = {i. (i, ''span'') \<in> tagged cls r}"
  by (auto simp: matching_spans_elements tagged_def image_iff)

lemma spans_tagged: "spans_below r \<Longrightarrow> x \<in> tagged cls r \<Longrightarrow> snd x = ''span''"
  by (auto simp: spans_below_def tagged_def list_all_iff)

lemma carriers_after:
  assumes d: "distinct (map fst (X @ (e, te, ce) # Y))"
    and E: "E' = X @ Y \<or> E' = X @ (e, te, filter (\<lambda>x. x \<noteq> cls) ce) # Y"
  shows "(\<lambda>x. (fst x, fst (snd x))) ` {x \<in> set E'. cls \<in> set (snd (snd x))} \<subseteq>
         (\<lambda>x. (fst x, fst (snd x))) ` {x \<in> set (X @ (e, te, ce) # Y). cls \<in> set (snd (snd x))}
           - {x. fst x = e}"
    and "fst ` set (X @ (e, te, ce) # Y) - {e} \<subseteq> fst ` set E'"
    and "list_all (\<lambda>x. fst (snd x) = ''span'') (X @ (e, te, ce) # Y) \<longrightarrow>
         list_all (\<lambda>x. fst (snd x) = ''span'') E'"
proof -
  have ne: "e \<notin> fst ` set X" "e \<notin> fst ` set Y" using d by auto
  show "(\<lambda>x. (fst x, fst (snd x))) ` {x \<in> set E'. cls \<in> set (snd (snd x))} \<subseteq>
         (\<lambda>x. (fst x, fst (snd x))) ` {x \<in> set (X @ (e, te, ce) # Y). cls \<in> set (snd (snd x))}
           - {x. fst x = e}"
  proof
    fix y assume "y \<in> (\<lambda>x. (fst x, fst (snd x))) ` {x \<in> set E'. cls \<in> set (snd (snd x))}"
    then obtain x where x: "x \<in> set E'" "cls \<in> set (snd (snd x))" "y = (fst x, fst (snd x))" by auto
    have "x \<in> set X \<or> x \<in> set Y" using E x(1,2) by auto
    then have "x \<in> set (X @ (e, te, ce) # Y)" and "fst x \<noteq> e" using ne by force+
    with x show "y \<in> (\<lambda>x. (fst x, fst (snd x))) ` {x \<in> set (X @ (e, te, ce) # Y). cls \<in> set (snd (snd x))}
           - {x. fst x = e}" by auto
  qed
  show "fst ` set (X @ (e, te, ce) # Y) - {e} \<subseteq> fst ` set E'" using E by auto
  show "list_all (\<lambda>x. fst (snd x) = ''span'') (X @ (e, te, ce) # Y) \<longrightarrow>
         list_all (\<lambda>x. fst (snd x) = ''span'') E'" using E by auto
qed

lemma clear_loop_effect:
  assumes "wf st" "distinct es" "set es \<subseteq> fst ` set (elements_below (root st))"
    and nb: "Node_bound env"
  shows "\<exists>st'. clear_loop env cls es st = Some st' \<and> wf st' \<and>
           textContent (root st') = textContent (root st) \<and>
           tagged cls (root st') \<subseteq> tagged cls (root st) - {x. fst x \<in> set es} \<and>
           (spans_below (root st) \<longrightarrow> spans_below (root st')) \<and>
           (normalized (root st) \<longrightarrow> normalized (root st'))"
  using assms(1,2,3)
proof (induction es arbitrary: st)
  case Nil
  then show ?case by auto
next
  case (Cons e es)
  from Cons.prems(3) obtain te ce where e: "(e, te, ce) \<in> set (elements_below (root st))" by force
  from clearElement_effect[OF Cons.prems(1) nb e, of cls] obtain st1 X Y where
    r: "clearElement env cls st e = Some st1" and w1: "wf st1"
    and t1: "textContent (root st1) = textContent (root st)"
    and E: "elements_below (root st) = X @ (e, te, ce) # Y"
    and E1: "elements_below (root st1) = X @ Y \<or>
            elements_below (root st1) = X @ (e, te, filter (\<lambda>x. x \<noteq> cls) ce) # Y"
    and n1: "normalized (root st) \<longrightarrow> normalized (root st1)" by blast
  have d: "distinct (map fst (X @ (e, te, ce) # Y))"
    using elements_below_distinct[of "root st"] Cons.prems(1) E by (simp add: wf_def)
  note ca = carriers_after[OF d E1]
  have c1: "tagged cls (root st1) \<subseteq> tagged cls (root st) - {x. fst x = e}"
    using ca(1) by (simp only: tagged_def E)
  have s1: "spans_below (root st) \<longrightarrow> spans_below (root st1)"
    using ca(3) by (simp only: spans_below_def E)
  have sub: "set es \<subseteq> fst ` set (elements_below (root st1))"
  proof
    fix i assume i: "i \<in> set es"
    with Cons.prems(2) have "i \<noteq> e" by auto
    moreover from i Cons.prems(3) E have "i \<in> fst ` set (X @ (e, te, ce) # Y)" by auto
    ultimately show "i \<in> fst ` set (elements_below (root st1))" using ca(2) by blast
  qed
  have des: "distinct es" using Cons.prems(2) by simp
  from Cons.IH[OF w1 des sub] obtain st' where
    r': "clear_loop env cls es st1 = Some st'" and w': "wf st'"
    and t': "textContent (root st') = textContent (root st1)"
    and c': "tagged cls (root st') \<subseteq> tagged cls (root st1) - {x. fst x \<in> set es}"
    and s': "spans_below (root st1) \<longrightarrow> spans_below (root st')"
    and n': "normalized (root st1) \<longrightarrow> normalized (root st')" by blast
  have "clear_loop env cls (e # es) st = Some st'" using r r' by simp
  moreover have "tagged cls (root st') \<subseteq> tagged cls (root st) - {x. fst x \<in> set (e # es)}"
    using c1 c' by auto
  ultimately show ?case using w' t' t1 s1 s' n1 n' by auto
qed

lemma querySelectorAll_identifier:
  "css_identifier cls \<Longrightarrow> querySelectorAll env (''span.'' @ cls) r = Some (matching_spans cls r)"
  by (simp add: querySelectorAll_def)

lemma clear_effect:
  assumes w: "wf st" and nb: "Node_bound env" and ci: "css_identifier cls"
  shows "\<exists>st'. clear env cls st = Some (st', length (matching_spans cls (root st))) \<and> wf st' \<and>
           textContent (root st') = textContent (root st) \<and>
           matching_spans cls (root st') = [] \<and>
           (spans_below (root st) \<longrightarrow> spans_below (root st') \<and> carriers cls (root st') = []) \<and>
           (normalized (root st) \<longrightarrow> normalized (root st'))"
proof -
  let ?q = "matching_spans cls (root st)"
  from w have d: "distinct (ids (root st))" by (simp add: wf_def)
  have dq: "distinct (rev ?q)"
    using elements_below_distinct[OF d] by (simp add: matching_spans_elements distinct_map_filter)
  have sq: "set (rev ?q) \<subseteq> fst ` set (elements_below (root st))"
    by (auto simp: matching_spans_elements)
  from clear_loop_effect[OF w dq sq nb, of cls] obtain st' where
    r: "clear_loop env cls (rev ?q) st = Some st'" and w': "wf st'"
    and t': "textContent (root st') = textContent (root st)"
    and c': "tagged cls (root st') \<subseteq> tagged cls (root st) - {x. fst x \<in> set (rev ?q)}"
    and s': "spans_below (root st) \<longrightarrow> spans_below (root st')"
    and n': "normalized (root st) \<longrightarrow> normalized (root st')" by blast
  have "set (matching_spans cls (root st')) = {}"
  proof -
    have "\<And>i. (i, ''span'') \<in> tagged cls (root st') \<Longrightarrow> False"
    proof -
      fix i assume "(i, ''span'') \<in> tagged cls (root st')"
      with c' have "(i, ''span'') \<in> tagged cls (root st)" and "i \<notin> set ?q" by auto
      then show False by (simp add: query_tagged)
    qed
    then show ?thesis by (auto simp: query_tagged)
  qed
  then have q': "matching_spans cls (root st') = []" by simp
  have "spans_below (root st) \<longrightarrow> carriers cls (root st') = []"
  proof
    assume sp: "spans_below (root st)"
    have "tagged cls (root st') = {}"
    proof (rule ccontr)
      assume "tagged cls (root st') \<noteq> {}"
      then obtain x where x: "x \<in> tagged cls (root st')" by auto
      with c' have x0: "x \<in> tagged cls (root st)" and nq: "fst x \<notin> set ?q" by auto
      from spans_tagged[OF sp x0] have "x = (fst x, ''span'')" by (cases x) simp
      with x0 have "fst x \<in> set ?q" by (simp add: query_tagged)
      with nq show False by simp
    qed
    then have "set (carriers cls (root st')) = {}" by (simp add: carriers_tagged)
    then show "carriers cls (root st') = []" by simp
  qed
  moreover have "clear env cls st = Some (st', length ?q)"
    unfolding clear_def querySelectorAll_identifier[OF ci] using r by simp
  ultimately show ?thesis using w' t' q' s' n' by simp
qed

section \<open>Coverage\<close>

lemma tlen_append [simp]: "tlen (A @ B) = tlen A + tlen B"
  by (simp add: tlen_def)

lemma tlen_Cons [simp]: "tlen ((h, v) # B) = int (length v) + tlen B"
  by (simp add: tlen_def)

lemma tlen_Nil [simp]: "tlen [] = 0"
  by (simp add: tlen_def)

lemma tlen_nonneg [simp]: "0 \<le> tlen A"
  by (simp add: tlen_def)

lemma frontier_start: "frontier W F W"
  by (auto simp: frontier_def)

lemma take_take_le: "a \<le> b \<Longrightarrow> take b w = take b v \<Longrightarrow> take a w = take a (v :: 'a list)"
  by (metis min.absorb1 take_take)

lemma frontier_mono:
  assumes f: "frontier W F X" and le: "F' \<le> F"
  shows "frontier W F' X"
  unfolding frontier_def
proof (intro conjI allI impI)
  fix A B assume "W = A @ B \<and> tlen A \<le> F'"
  with f le show "\<exists>B'. X = A @ B'" by (auto simp: frontier_def)
next
  fix A h v B
  assume a: "W = A @ (h, v) # B \<and> tlen A < F' \<and> F' < tlen A + int (length v)"
  show "\<exists>w B'. X = A @ (h, w) # B' \<and> take (nat (F' - tlen A)) w = take (nat (F' - tlen A)) v"
  proof (cases "F < tlen A + int (length v)")
    case True
    with a le f obtain w B' where x: "X = A @ (h, w) # B'"
      and t: "take (nat (F - tlen A)) w = take (nat (F - tlen A)) v"
      unfolding frontier_def by (metis less_le_trans)
    have "nat (F' - tlen A) \<le> nat (F - tlen A)" using le by simp
    from take_take_le[OF this t] x show ?thesis by blast
  next
    case False
    have "W = (A @ [(h, v)]) @ B \<and> tlen (A @ [(h, v)]) \<le> F" using a False by simp
    with f obtain B' where "X = (A @ [(h, v)]) @ B'" unfolding frontier_def by blast
    then show ?thesis by auto
  qed
qed

text \<open>Reading a leaf up to a local offset that lies before the frontier.\<close>

lemma frontier_read:
  assumes f: "frontier W F X" and W: "W = A @ (x, v) # B"
    and t: "0 < t" "t \<le> int (length v)" "tlen A + t \<le> F"
  shows "\<exists>w B'. X = A @ (x, w) # B' \<and> take (nat t) w = take (nat t) v"
proof (cases "F < tlen A + int (length v)")
  case True
  have "tlen A < F" using t by simp
  with True W f obtain w B' where x: "X = A @ (x, w) # B'"
    and tk: "take (nat (F - tlen A)) w = take (nat (F - tlen A)) v"
    unfolding frontier_def by blast
  have "nat t \<le> nat (F - tlen A)" using t by simp
  from take_take_le[OF this tk] x show ?thesis by blast
next
  case False
  have "W = (A @ [(x, v)]) @ B \<and> tlen (A @ [(x, v)]) \<le> F" using W False by simp
  with f obtain B' where "X = (A @ [(x, v)]) @ B'" unfolding frontier_def by blast
  then show ?thesis by auto
qed

lemma frontier_read_whole:
  assumes f: "frontier W F X" and W: "W = A @ (x, v) # B" and t: "tlen A + int (length v) \<le> F"
  shows "\<exists>B'. X = A @ (x, v) # B'"
proof -
  have "W = (A @ [(x, v)]) @ B \<and> tlen (A @ [(x, v)]) \<le> F" using W t by simp
  with f obtain B' where "X = (A @ [(x, v)]) @ B'" unfolding frontier_def by blast
  then show ?thesis by auto
qed

lemma split_compare:
  assumes "A @ (x :: 'a) # B = A' @ x' # B'"
  shows "(A = A' \<and> x = x' \<and> B = B') \<or> (\<exists>Z. A = A' @ x' # Z) \<or> (\<exists>Z. A' = A @ x # Z)"
  using assms
proof (induction A arbitrary: A')
  case Nil
  then show ?case by (cases A') auto
next
  case (Cons a A)
  show ?case
  proof (cases A')
    case Nil
    with Cons.prems show ?thesis by auto
  next
    case (Cons a' A'')
    with Cons.prems have "a = a'" "A @ x # B = A'' @ x' # B'" by auto
    from Cons.IH[OF this(2)] \<open>a = a'\<close> Cons show ?thesis by auto
  qed
qed

lemma prefix_compare:
  assumes "A @ (x :: 'a) # B = A' @ B'"
  shows "(\<exists>Z. A = A' @ Z) \<or> (\<exists>Z. A' = A @ x # Z)"
  using assms
proof (induction A arbitrary: A')
  case Nil
  then show ?case by (cases A') auto
next
  case (Cons a A)
  show ?case
  proof (cases A')
    case Nil
    then show ?thesis by auto
  next
    case (Cons a' A'')
    with Cons.prems have "a = a'" "A @ x # B = A'' @ B'" by auto
    from Cons.IH[OF this(2)] \<open>a = a'\<close> Cons show ?thesis by auto
  qed
qed

text \<open>After a leaf was rewritten from a local offset on, the frontier is at that offset.\<close>

lemma frontier_write:
  assumes W: "W = A @ (x, v) # B" and a: "0 \<le> a" "a < int (length v)"
    and X: "X = A @ P"
    and keep: "0 < a \<longrightarrow> (\<exists>w P'. P = (x, w) # P' \<and> take (nat a) w = take (nat a) v)"
  shows "frontier W (tlen A + a) X"
  unfolding frontier_def
proof (intro conjI allI impI)
  fix A0 B0 assume h: "W = A0 @ B0 \<and> tlen A0 \<le> tlen A + a"
  with W have "A @ (x, v) # B = A0 @ B0" by simp
  from prefix_compare[OF this] have "\<exists>Z. A = A0 @ Z"
  proof
    assume "\<exists>Z. A = A0 @ Z" then show ?thesis .
  next
    assume "\<exists>Z. A0 = A @ (x, v) # Z"
    then obtain Z where "A0 = A @ (x, v) # Z" by blast
    then have "tlen A0 \<ge> tlen A + int (length v)" by simp
    with h a show ?thesis by simp
  qed
  then show "\<exists>B'. X = A0 @ B'" using X by auto
next
  fix A0 h v0 B0
  assume h: "W = A0 @ (h, v0) # B0 \<and> tlen A0 < tlen A + a \<and> tlen A + a < tlen A0 + int (length v0)"
  let ?k = "nat (tlen A + a - tlen A0)"
  from h W have "A @ (x, v) # B = A0 @ (h, v0) # B0" by simp
  from split_compare[OF this]
  show "\<exists>w B'. X = A0 @ (h, w) # B' \<and> take ?k w = take ?k v0"
  proof (elim disjE exE conjE)
    assume e: "A = A0" "(x, v) = (h, v0)" "B = B0"
    with h have "0 < a" by simp
    with keep obtain w P' where "P = (x, w) # P'" "take (nat a) w = take (nat a) v" by blast
    with e X show ?thesis by auto
  next
    fix Z assume "A = A0 @ (h, v0) # Z"
    with X have "X = A0 @ (h, v0) # (Z @ P)" by simp
    then show ?thesis by blast
  next
    fix Z assume "A0 = A @ (x, v) # Z"
    then have "tlen A0 \<ge> tlen A + int (length v)" by simp
    with h a show ?thesis by simp
  qed
qed

lemma leaf_texts_leaves: "text_nodes r = leaf_texts (leaves cls inh r)"
  by (simp add: leaf_texts_def text_nodes_leaves[of r cls inh] case_prod_unfold)

lemma leaf_texts_append [simp]: "leaf_texts (A @ B) = leaf_texts A @ leaf_texts B"
  by (simp add: leaf_texts_def)

lemma leaf_texts_Cons [simp]: "leaf_texts ((n, v, b) # B) = (n, v) # leaf_texts B"
  by (simp add: leaf_texts_def)

lemma leaf_texts_Nil [simp]: "leaf_texts [] = []"
  by (simp add: leaf_texts_def)

lemma flags_append [simp]: "flags (A @ B) = flags A @ flags B"
  by (simp add: flags_def)

lemma flags_Cons [simp]: "flags ((n, v, b) # B) = replicate (length v) b @ flags B"
  by (simp add: flags_def)

lemma flags_Nil [simp]: "flags [] = []"
  by (simp add: flags_def)

lemma length_flags: "int (length (flags L)) = tlen (leaf_texts L)"
  by (induction L) (auto simp: tlen_def leaf_texts_def flags_def)

lemma leaf_texts_split:
  assumes "leaf_texts L = A @ (x, w) # B"
  shows "\<exists>AL b BL. L = AL @ (x, w, b) # BL \<and> leaf_texts AL = A \<and> leaf_texts BL = B"
proof -
  from assms obtain AL y BL where L: "L = AL @ y # BL" and A: "map (\<lambda>x. (fst x, fst (snd x))) AL = A"
    and y: "(fst y, fst (snd y)) = (x, w)" and B: "map (\<lambda>x. (fst x, fst (snd x))) BL = B"
    unfolding leaf_texts_def by (auto simp: map_eq_append_conv map_eq_Cons_conv)
  from y have "y = (x, w, snd (snd y))" by (cases y) auto
  with L have "L = AL @ (x, w, snd (snd y)) # BL" by simp
  with A B show ?thesis unfolding leaf_texts_def by blast
qed

lemma more_styled_refl: "more_styled cls st st"
  by (simp add: more_styled_def list_all2_refl)

lemma more_styled_trans: "more_styled cls a b \<Longrightarrow> more_styled cls b c \<Longrightarrow> more_styled cls a c"
  unfolding more_styled_def
  using list_all2_trans[of "\<lambda>x y. x \<longrightarrow> y" "\<lambda>x y. x \<longrightarrow> y" "\<lambda>x y. x \<longrightarrow> y"] by blast

lemma more_styled_nth:
  "more_styled cls st st' \<Longrightarrow> k < length (styled_chars cls (root st)) \<Longrightarrow>
   styled_chars cls (root st) ! k \<Longrightarrow> styled_chars cls (root st') ! k"
  unfolding more_styled_def by (auto dest: list_all2_nthD)

lemma more_styled_length:
  "more_styled cls st st' \<Longrightarrow> length (styled_chars cls (root st')) = length (styled_chars cls (root st))"
  unfolding more_styled_def by (auto dest: list_all2_lengthD)

lemma nth_True_block:
  "length xs \<le> k \<Longrightarrow> k < length xs + m \<Longrightarrow> (xs @ replicate m True @ ys) ! k"
proof -
  assume a: "length xs \<le> k" "k < length xs + m"
  then have "k - length xs < m" by simp
  with a show ?thesis by (simp add: nth_append)
qed

lemma flags_range:
  assumes "n = a + m + r"
  shows "list_all2 (\<lambda>x y. x \<longrightarrow> y) (P @ replicate n b @ Q)
           (P @ (replicate a b @ replicate m True @ replicate r b) @ Q)"
    and "\<And>k. length P + a \<le> k \<Longrightarrow> k < length P + a + m \<Longrightarrow>
           (P @ (replicate a b @ replicate m True @ replicate r b) @ Q) ! k"
proof -
  have "replicate n b = replicate a b @ replicate m b @ replicate r b"
    using assms by (simp add: replicate_add)
  moreover have "list_all2 (\<lambda>x y. x \<longrightarrow> y) (replicate a b @ replicate m b @ replicate r b)
                   (replicate a b @ replicate m True @ replicate r b)"
    by (intro list_all2_appendI) (simp_all add: list_all2_conv_all_nth)
  ultimately show "list_all2 (\<lambda>x y. x \<longrightarrow> y) (P @ replicate n b @ Q)
           (P @ (replicate a b @ replicate m True @ replicate r b) @ Q)"
    by (intro list_all2_appendI) (simp_all add: list_all2_refl)
  fix k assume k: "length P + a \<le> k" "k < length P + a + m"
  have "((P @ replicate a b) @ replicate m True @ (replicate r b @ Q)) ! k"
    by (rule nth_True_block) (use k in simp_all)
  then show "(P @ (replicate a b @ replicate m True @ replicate r b) @ Q) ! k"
    by (simp only: append_assoc)
qed

lemma substring_length:
  assumes "0 \<le> a" "a \<le> t" "t \<le> int (length w)"
  shows "length (substring w a t) = nat (t - a)"
  using assms by (auto simp: substring_def Let_def min_def max_def)

lemma pieces_flags:
  assumes "0 \<le> a" "a < t" "t \<le> int (length w)"
  shows "flags (pieces x w b c a t) =
           replicate (nat a) b @ replicate (nat (t - a)) True @ replicate (length w - nat t) b"
proof -
  have l0: "length (substring w 0 a) = nat a" using substring_length[of 0 a w] assms by simp
  have l1: "length (substring w a t) = nat (t - a)" using substring_length[of a t w] assms by simp
  have l2: "length (substring w t (int (length w))) = length w - nat t"
    using substring_length[of t "int (length w)" w] assms by simp
  have l3: "length (substring w 0 t) = nat t" using substring_length[of 0 t w] assms by simp
  consider (whole) "a = 0" "t = int (length w)" | (head) "a = 0" "t \<noteq> int (length w)"
    | (mid) "a \<noteq> 0" "t < int (length w)" | (tail) "a \<noteq> 0" "t = int (length w)"
    using assms by linarith
  then show ?thesis
  proof cases
    case whole
    with assms show ?thesis by (simp add: pieces_def)
  next
    case head
    with assms l3 l2 show ?thesis by (simp add: pieces_def)
  next
    case mid
    with assms l0 l1 l2 show ?thesis by (simp add: pieces_def)
  next
    case tail
    with assms l0 l1 show ?thesis by (simp add: pieces_def)
  qed
qed

lemma pieces_leaf_texts_head:
  assumes "0 < a" "a < t"
  shows "\<exists>P'. leaf_texts (pieces x w b c a t) = (x, substring w 0 a) # P'"
  using assms by (simp add: pieces_def)

lemma text_leaf_texts: "concat (map snd (leaf_texts L)) = concat (map (\<lambda>x. fst (snd x)) L)"
  by (simp add: leaf_texts_def comp_def)

lemma take_length_le:
  assumes "take n w = take n v" "n \<le> length v"
  shows "n \<le> length w"
proof -
  have "length (take n w) = length (take n v)" using assms(1) by simp
  with assms(2) show ?thesis by simp
qed

lemma apply_range:
  assumes s: "struct cls W F st" and W: "W = A @ (x, v) # B"
    and a: "0 \<le> a" "a < t" "t \<le> int (length v)" and F: "tlen A + t \<le> F"
  shows "\<exists>st' aff. applyToNode cls st x a t = Some (st', aff) \<and> struct cls W (tlen A + a) st' \<and>
           more_styled cls st st' \<and>
           (\<forall>k. tlen A + a \<le> int k \<and> int k < tlen A + t \<longrightarrow> styled_chars cls (root st') ! k)"
proof -
  from s have w: "wf st" and tx: "concat (map snd (text_nodes (root st))) = concat (map snd W)"
    and fr: "frontier W F (text_nodes (root st))" by (auto simp: struct_def)
  have t0: "0 < t" using a by simp
  from frontier_read[OF fr W t0 a(3) F] obtain w' B' where
    X: "text_nodes (root st) = A @ (x, w') # B'" and tk: "take (nat t) w' = take (nat t) v" by blast
  have "nat t \<le> length v" using a by simp
  from take_length_le[OF tk this] have tw: "t \<le> int (length w')" by simp
  let ?L = "leaves cls False (root st)"
  from X have "leaf_texts ?L = A @ (x, w') # B'" by (simp add: leaf_texts_leaves[of _ cls False])
  from leaf_texts_split[OF this] obtain AL b BL where
    L: "?L = AL @ (x, w', b) # BL" and AL: "leaf_texts AL = A" and BL: "leaf_texts BL = B'" by blast
  from applyToNode_leaves[OF w L, of a t] obtain st' aff where
    r: "applyToNode cls st x a t = Some (st', aff)" and w': "wf st'"
    and L': "leaves cls False (root st') = AL @ pieces x w' b (next_id st) a t @ BL" by blast
  let ?pc = "pieces x w' b (next_id st) a t"
  have X': "text_nodes (root st') = A @ (leaf_texts ?pc @ B')"
    using L' AL BL by (simp add: leaf_texts_leaves[of _ cls False])
  have "concat (map (\<lambda>x. fst (snd x)) ?pc) = w'"
    by (rule pieces_text) (use a in auto)
  then have tx': "concat (map snd (text_nodes (root st'))) = concat (map snd W)"
    using tx X X' by (simp add: text_leaf_texts)
  have fr': "frontier W (tlen A + a) (text_nodes (root st'))"
  proof (rule frontier_write[OF W a(1) _ X'])
    show "a < int (length v)" using a by simp
    show "0 < a \<longrightarrow> (\<exists>w P'. leaf_texts ?pc @ B' = (x, w) # P' \<and> take (nat a) w = take (nat a) v)"
    proof
      assume a0: "0 < a"
      from pieces_leaf_texts_head[OF a0 a(2)] obtain P' where p: "leaf_texts ?pc = (x, substring w' 0 a) # P'" by blast
      have "substring w' 0 a = take (nat a) w'"
        using a tw by (simp add: substring_def Let_def min_def max_def)
      moreover have "take (nat a) w' = take (nat a) v"
        by (rule take_take_le[OF _ tk]) (use a in simp)
      ultimately have "take (nat a) (substring w' 0 a) = take (nat a) v" by simp
      with p show "\<exists>w P'. leaf_texts ?pc @ B' = (x, w) # P' \<and> take (nat a) w = take (nat a) v" by simp
    qed
  qed
  have s': "struct cls W (tlen A + a) st'" using w' tx' fr' by (simp add: struct_def)
  have fl: "styled_chars cls (root st) = flags AL @ replicate (length w') b @ flags BL"
    using L by (simp add: styled_chars_def)
  have fl': "styled_chars cls (root st') =
      flags AL @ (replicate (nat a) b @ replicate (nat (t - a)) True @ replicate (length w' - nat t) b) @ flags BL"
    using L' pieces_flags[OF a(1,2) tw, of x b "next_id st"] by (simp add: styled_chars_def)
  have n: "length w' = nat a + nat (t - a) + (length w' - nat t)" using a tw by simp
  have ms: "more_styled cls st st'"
    unfolding more_styled_def fl fl' by (rule flags_range(1)[OF n])
  have la: "int (length (flags AL)) = tlen A" using length_flags[of AL] AL by simp
  have cov: "\<forall>k. tlen A + a \<le> int k \<and> int k < tlen A + t \<longrightarrow> styled_chars cls (root st') ! k"
  proof (intro allI impI)
    fix k assume k: "tlen A + a \<le> int k \<and> int k < tlen A + t"
    have "length (flags AL) + nat a \<le> k" using k la[symmetric] a by linarith
    moreover have "k < length (flags AL) + nat a + nat (t - a)" using k la[symmetric] a by linarith
    ultimately show "styled_chars cls (root st') ! k"
      unfolding fl' by (rule flags_range(2)[OF n])
  qed
  from r s' ms cov show ?thesis by blast
qed

lemma apply_whole:
  assumes s: "struct cls W F st" and X: "text_nodes (root st) = A @ (x, v) # B'"
  shows "\<exists>st' n. applyToWholeNode cls st x = Some (st', n) \<and> struct cls W F st' \<and>
           text_nodes (root st') = text_nodes (root st) \<and> more_styled cls st st' \<and>
           (\<forall>k. tlen A \<le> int k \<and> int k < tlen A + int (length v) \<longrightarrow> styled_chars cls (root st') ! k)"
proof -
  from s have w: "wf st" and tx: "concat (map snd (text_nodes (root st))) = concat (map snd W)"
    and fr: "frontier W F (text_nodes (root st))" by (auto simp: struct_def)
  let ?L = "leaves cls False (root st)"
  from X have "leaf_texts ?L = A @ (x, v) # B'" by (simp add: leaf_texts_leaves[of _ cls False])
  from leaf_texts_split[OF this] obtain AL b BL where
    L: "?L = AL @ (x, v, b) # BL" and AL: "leaf_texts AL = A" and BL: "leaf_texts BL = B'" by blast
  from applyToWholeNode_leaves[OF w L] obtain st' n where
    r: "applyToWholeNode cls st x = Some (st', n)" and w': "wf st'"
    and L': "leaves cls False (root st') = AL @ (x, v, True) # BL" by blast
  have X': "text_nodes (root st') = text_nodes (root st)"
    using L L' by (simp add: leaf_texts_leaves[of _ cls False])
  have s': "struct cls W F st'" using w' tx fr X' by (simp add: struct_def)
  have fl: "styled_chars cls (root st) = flags AL @ replicate (length v) b @ flags BL"
    using L by (simp add: styled_chars_def)
  have fl': "styled_chars cls (root st') =
      flags AL @ (replicate 0 b @ replicate (length v) True @ replicate 0 b) @ flags BL"
    using L' by (simp add: styled_chars_def)
  have n: "length v = 0 + length v + 0" by simp
  have ms: "more_styled cls st st'"
    unfolding more_styled_def fl fl' by (rule flags_range(1)[OF n])
  have la: "int (length (flags AL)) = tlen A" using length_flags[of AL] AL by simp
  have cov: "\<forall>k. tlen A \<le> int k \<and> int k < tlen A + int (length v) \<longrightarrow> styled_chars cls (root st') ! k"
  proof (intro allI impI)
    fix k assume k: "tlen A \<le> int k \<and> int k < tlen A + int (length v)"
    have "length (flags AL) + 0 \<le> k" using k la[symmetric] by linarith
    moreover have "k < length (flags AL) + 0 + length v" using k la[symmetric] by linarith
    ultimately show "styled_chars cls (root st') ! k"
      unfolding fl' by (rule flags_range(2)[OF n])
  qed
  from r s' X' ms cov show ?thesis by blast
qed

lemma length_line_breaks: "int (length (line_breaks A)) = tlen A"
  by (induction A) (auto simp: line_breaks_def tlen_def)

lemma line_breaks_at:
  assumes W: "W = A @ (x, v) # B" and k: "tlen A \<le> int k" "int k < tlen A + int (length v)"
  shows "line_breaks W ! k = (v = [CHR 0x0A])"
proof -
  have W': "line_breaks W = line_breaks A @ replicate (length v) (v = [CHR 0x0A]) @ line_breaks B"
    using W by (simp add: line_breaks_def)
  have l: "length (line_breaks A) \<le> k" using k(1) length_line_breaks[of A, symmetric] by linarith
  have u: "k - length (line_breaks A) < length v" using k length_line_breaks[of A, symmetric] by linarith
  show ?thesis unfolding W' using l u by (simp add: nth_append)
qed

lemma struct_mono: "struct cls W F st \<Longrightarrow> F' \<le> F \<Longrightarrow> struct cls W F' st"
  by (auto simp: struct_def intro: frontier_mono)

lemma struct_length:
  assumes "struct cls W F st"
  shows "int (length (styled_chars cls (root st))) = tlen W"
proof -
  have "int (length (styled_chars cls (root st))) = tlen (leaf_texts (leaves cls False (root st)))"
    by (simp add: styled_chars_def length_flags)
  also have "\<dots> = tlen (text_nodes (root st))" by (simp add: leaf_texts_leaves[of _ cls False])
  also have "\<dots> = tlen W" using assms by (simp add: struct_def tlen_def)
  finally show ?thesis .
qed

lemma covered_empty: "e \<le> s \<Longrightarrow> covered cls W s e st"
  by (auto simp: covered_def)

lemma covered_join: "covered cls W s m st \<Longrightarrow> covered cls W m e st \<Longrightarrow> covered cls W s e st"
  unfolding covered_def by (metis not_le)

lemma covered_mono:
  assumes c: "covered cls W s e st" and m: "more_styled cls st st'"
    and l: "int (length (styled_chars cls (root st))) = tlen W" and e: "e \<le> tlen W"
  shows "covered cls W s e st'"
  unfolding covered_def
proof (intro allI impI)
  fix k assume k: "s \<le> int k \<and> int k < e \<and> \<not> line_breaks W ! k"
  with c have "styled_chars cls (root st) ! k" by (auto simp: covered_def)
  moreover have "k < length (styled_chars cls (root st))" using k l e by linarith
  ultimately show "styled_chars cls (root st') ! k" using more_styled_nth[OF m] by blast
qed

lemma covered_line_break:
  assumes W: "W = A @ (x, [CHR 0x0A]) # B"
  shows "covered cls W (tlen A) (tlen A + 1) st"
  unfolding covered_def
proof (intro allI impI)
  fix k assume k: "tlen A \<le> int k \<and> int k < tlen A + 1 \<and> \<not> line_breaks W ! k"
  have "line_breaks W ! k = ([CHR 0x0A] = [CHR 0x0A])"
    by (rule line_breaks_at[OF W]) (use k in auto)
  with k show "styled_chars cls (root st) ! k" by simp
qed

lemma text_node_value:
  assumes "struct cls W F st" "text_nodes (root st) = A @ (x, v) # B"
  shows "nodeValue x (root st) = Some v"
proof -
  from assms(1) have d: "distinct (ids (root st))" by (simp add: struct_def wf_def)
  have "(x, v) \<in> set (text_nodes (root st))" using assms(2) by simp
  from text_node_parent_aux[OF d this] show ?thesis by simp
qed

lemma struct_value:
  assumes s: "struct cls W F st" and W: "W = A @ (x, v) # B" and F: "tlen A + int (length v) \<le> F"
  shows "nodeValue x (root st) = Some v" and "\<exists>B'. text_nodes (root st) = A @ (x, v) # B'"
proof -
  from s have fr: "frontier W F (text_nodes (root st))" by (simp add: struct_def)
  from frontier_read_whole[OF fr W F] show X: "\<exists>B'. text_nodes (root st) = A @ (x, v) # B'" .
  then obtain B' where "text_nodes (root st) = A @ (x, v) # B'" by blast
  from text_node_value[OF s this] show "nodeValue x (root st) = Some v" .
qed

lemma wrap_each_cover:
  assumes "struct cls W F st" "W = P @ M @ Q" "tlen (P @ M) \<le> F"
  shows "\<exists>st' aff'. wrap_each cls (rev (map fst M)) st aff = Some (st', aff') \<and> struct cls W F st' \<and>
           more_styled cls st st' \<and> covered cls W (tlen P) (tlen (P @ M)) st'"
  using assms
proof (induction M arbitrary: Q st aff rule: rev_induct)
  case Nil
  then show ?case by (simp add: more_styled_refl covered_empty)
next
  case (snoc m M)
  obtain i u where m: "m = (i, u)" by (cases m)
  have W: "W = (P @ M) @ (i, u) # Q" using snoc.prems(2) m by simp
  have F: "tlen (P @ M) + int (length u) \<le> F" using snoc.prems(3) m by simp
  have W2: "W = P @ M @ ((i, u) # Q)" using W by simp
  have F2: "tlen (P @ M) \<le> F" using F by simp
  have top: "tlen (P @ M) + int (length u) \<le> tlen W" unfolding W by simp
  have e: "tlen (P @ M @ [m]) = tlen (P @ M) + int (length u)" using m by simp
  from struct_value[OF snoc.prems(1) W F] obtain B' where
    nv: "nodeValue i (root st) = Some u" and X: "text_nodes (root st) = (P @ M) @ (i, u) # B'" by blast
  have rv: "rev (map fst (M @ [m])) = i # rev (map fst M)" using m by simp
  show ?case
  proof (cases "u = [CHR 0x0A]")
    case True
    from snoc.IH[OF snoc.prems(1) W2 F2, of aff] obtain st' aff' where
      r: "wrap_each cls (rev (map fst M)) st aff = Some (st', aff')" and s': "struct cls W F st'"
      and ms: "more_styled cls st st'" and c: "covered cls W (tlen P) (tlen (P @ M)) st'" by blast
    have e1: "tlen (P @ M @ [m]) = tlen (P @ M) + 1" using e True by simp
    have cb: "covered cls W (tlen (P @ M)) (tlen (P @ M @ [m])) st'"
      unfolding e1 by (rule covered_line_break) (use W True in simp)
    have "covered cls W (tlen P) (tlen (P @ M @ [m])) st'"
      by (rule covered_join[OF c cb])
    moreover have "wrap_each cls (rev (map fst (M @ [m]))) st aff = Some (st', aff')"
      using r nv True unfolding rv by simp
    ultimately show ?thesis using s' ms by blast
  next
    case False
    from apply_whole[OF snoc.prems(1) X] obtain st1 n where
      r1: "applyToWholeNode cls st i = Some (st1, n)" and s1: "struct cls W F st1"
      and ms1: "more_styled cls st st1"
      and c1: "\<forall>k. tlen (P @ M) \<le> int k \<and> int k < tlen (P @ M) + int (length u) \<longrightarrow>
                 styled_chars cls (root st1) ! k" by blast
    from snoc.IH[OF s1 W2 F2, of "aff @ [n]"] obtain st' aff' where
      r: "wrap_each cls (rev (map fst M)) st1 (aff @ [n]) = Some (st', aff')" and s': "struct cls W F st'"
      and ms: "more_styled cls st1 st'" and c: "covered cls W (tlen P) (tlen (P @ M)) st'" by blast
    have "covered cls W (tlen (P @ M)) (tlen (P @ M) + int (length u)) st1"
      using c1 unfolding covered_def by blast
    from covered_mono[OF this ms struct_length[OF s1] top]
    have cb: "covered cls W (tlen (P @ M)) (tlen (P @ M @ [m])) st'" unfolding e .
    have "covered cls W (tlen P) (tlen (P @ M @ [m])) st'"
      by (rule covered_join[OF c cb])
    moreover have "wrap_each cls (rev (map fst (M @ [m]))) st aff = Some (st', aff')"
      using r r1 nv False unfolding rv by simp
    moreover have "more_styled cls st st'" using more_styled_trans[OF ms1 ms] .
    ultimately show ?thesis using s' by blast
  qed
qed

lemma multi_cover:
  assumes s1: "struct cls W (tlen (A @ (h, v) # M)) st1" and W: "W = A @ (h, v) # M @ Q"
    and a: "0 \<le> a" "a < int (length v)"
  shows "\<exists>st2 a2 st3 a3. wrap_each cls (rev (map fst M)) st1 a1 = Some (st2, a2) \<and>
           nodeValue h (root st2) = Some v \<and>
           applyToNode cls st2 h a (int (length v)) = Some (st3, a3) \<and>
           struct cls W (tlen A + a) st3 \<and> more_styled cls st1 st3 \<and>
           covered cls W (tlen A + a) (tlen (A @ (h, v) # M)) st3"
proof -
  let ?F = "tlen (A @ (h, v) # M)"
  have W1: "W = (A @ [(h, v)]) @ M @ Q" using W by simp
  have F1: "tlen ((A @ [(h, v)]) @ M) \<le> ?F" by simp
  from wrap_each_cover[OF s1 W1 F1, of a1] obtain st2 a2 where
    r2: "wrap_each cls (rev (map fst M)) st1 a1 = Some (st2, a2)" and s2: "struct cls W ?F st2"
    and ms2: "more_styled cls st1 st2"
    and c2: "covered cls W (tlen (A @ [(h, v)])) (tlen ((A @ [(h, v)]) @ M)) st2" by blast
  have W2: "W = A @ (h, v) # (M @ Q)" using W by simp
  have F2: "tlen A + int (length v) \<le> ?F" by simp
  from struct_value(1)[OF s2 W2 F2] have nv: "nodeValue h (root st2) = Some v" .
  from apply_range[OF s2 W2 a(1,2) _ F2] obtain st3 a3 where
    r3: "applyToNode cls st2 h a (int (length v)) = Some (st3, a3)"
    and s3: "struct cls W (tlen A + a) st3" and ms3: "more_styled cls st2 st3"
    and c3: "\<forall>k. tlen A + a \<le> int k \<and> int k < tlen A + int (length v) \<longrightarrow>
               styled_chars cls (root st3) ! k" by auto
  have top: "tlen ((A @ [(h, v)]) @ M) \<le> tlen W" unfolding W by simp
  have ci: "covered cls W (tlen (A @ [(h, v)])) (tlen ((A @ [(h, v)]) @ M)) st3"
    by (rule covered_mono[OF c2 ms3 struct_length[OF s2] top])
  have e1: "tlen (A @ [(h, v)]) = tlen A + int (length v)" by simp
  have ch: "covered cls W (tlen A + a) (tlen (A @ [(h, v)])) st3"
    unfolding e1 using c3 unfolding covered_def by blast
  have "covered cls W (tlen A + a) (tlen ((A @ [(h, v)]) @ M)) st3"
    by (rule covered_join[OF ch ci])
  then have "covered cls W (tlen A + a) ?F st3" by simp
  with r2 nv r3 s3 more_styled_trans[OF ms2 ms3] show ?thesis by blast
qed

lemma applyToGroup_short: "length g \<le> 1 \<Longrightarrow> applyToGroup cls st g = Some (st, [])"
  by (simp add: applyToGroup_def)

lemma applyToGroup_pair:
  "applyToGroup cls st [(h, a), (h, t)] =
     (case applyToNode cls st h a t of None \<Rightarrow> None | Some (st', nodes) \<Rightarrow> Some (st', rev nodes))"
  by (simp add: applyToGroup_def)

lemma group_shape:
  fixes g :: "node_and_offset list"
  assumes g: "g = (h, a) # map (\<lambda>m. (fst m, 0)) M @ [(x, t)]"
  shows "2 \<le> length g" "last g = (x, t)" "hd g = (h, a)" "rev (map fst (butlast (tl g))) = rev (map fst M)"
    "length g = 2 \<Longrightarrow> fst (g ! 0) = h \<and> fst (g ! 1) = x \<and> M = []"
proof -
  show "2 \<le> length g" "last g = (x, t)" "hd g = (h, a)" using g by simp_all
  have "tl g = map (\<lambda>m. (fst m, 0)) M @ [(x, t)]" using g by simp
  then have "butlast (tl g) = map (\<lambda>m. (fst m, 0)) M" by (simp add: butlast_append)
  then show "rev (map fst (butlast (tl g))) = rev (map fst M)" by (simp add: comp_def)
  show "length g = 2 \<Longrightarrow> fst (g ! 0) = h \<and> fst (g ! 1) = x \<and> M = []"
    using g by (cases M) auto
qed

lemma group_multi_run:
  fixes g :: "node_and_offset list"
  assumes g: "g = (h, a) # map (\<lambda>m. (fst m, 0)) M @ [(x, t)]"
    and ne: "M = [] \<longrightarrow> h \<noteq> x"
    and r1: "(if 0 < t then applyToNode cls st x 0 t else Some (st, [])) = Some (st1, a1)"
    and r2: "wrap_each cls (rev (map fst M)) st1 a1 = Some (st2, a2)"
    and nv: "nodeValue h (root st2) = Some v"
    and r3: "applyToNode cls st2 h a (int (length v)) = Some (st3, a3)"
  shows "applyToGroup cls st g = Some (st3, rev (a2 @ a3))"
proof -
  note sh = group_shape[OF g]
  have n2: "\<not> (length g = 2 \<and> fst (g ! 0) = fst (g ! 1))" using sh(5) ne by auto
  show ?thesis
    unfolding applyToGroup_multi[OF sh(1) n2] sh(2,3,4)
    by (simp only: r1 r2 nv r3 option.case prod.case fst_conv snd_conv)
qed

lemma applyToGroup_cover:
  assumes s: "struct cls W F st" and g: "grp W g (s0, e0)" and F: "e0 \<le> F"
    and d: "distinct (map fst W)"
  shows "\<exists>st' aff. applyToGroup cls st g = Some (st', aff) \<and> struct cls W s0 st' \<and>
           more_styled cls st st' \<and> covered cls W s0 e0 st'"
proof -
  from g consider
      (short) "length g \<le> 1" "s0 = e0"
    | (same) A h v B a t where "W = A @ (h, v) # B" "g = [(h, a), (h, t)]" "0 \<le> a" "a \<le> t"
        "t \<le> int (length v)" "s0 = tlen A + a" "e0 = tlen A + t"
    | (multi) A h v M x u B a t where "W = A @ (h, v) # M @ (x, u) # B"
        "g = (h, a) # map (\<lambda>m. (fst m, 0)) M @ [(x, t)]" "0 \<le> a" "a < int (length v)"
        "0 \<le> t" "t \<le> int (length u)" "s0 = tlen A + a" "e0 = tlen (A @ (h, v) # M) + t"
    | (fall) A h v M x u a where "W = A @ (h, v) # M @ [(x, u)]"
        "g = (h, a) # map (\<lambda>m. (fst m, 0)) (M @ [(x, u)]) @ [(x, int (length u))]"
        "0 \<le> a" "a < int (length v)" "s0 = tlen A + a" "e0 = tlen W"
    unfolding grp_def by auto
  then show ?thesis
  proof cases
    case short
    have "struct cls W s0 st" using struct_mono[OF s] F short(2) by simp
    then show ?thesis
      using applyToGroup_short[OF short(1)] short(2) by (auto simp: more_styled_refl covered_empty)
  next
    case same
    show ?thesis
    proof (cases "a = t")
      case True
      have "struct cls W s0 st" using struct_mono[OF s] F same True by simp
      moreover have "applyToGroup cls st g = Some (st, [])"
        unfolding same(2) applyToGroup_pair using True by (simp add: applyToNode_same)
      moreover have "covered cls W s0 e0 st" using same True by (simp add: covered_empty)
      ultimately show ?thesis using more_styled_refl by blast
    next
      case False
      then have lt: "a < t" using same(4) by simp
      have Ft: "tlen A + t \<le> F" using F same(7) by simp
      from apply_range[OF s same(1,3) lt same(5) Ft] obtain st' aff where
        r: "applyToNode cls st h a t = Some (st', aff)" and s': "struct cls W (tlen A + a) st'"
        and ms: "more_styled cls st st'"
        and c: "\<forall>k. tlen A + a \<le> int k \<and> int k < tlen A + t \<longrightarrow> styled_chars cls (root st') ! k"
        by blast
      have "applyToGroup cls st g = Some (st', rev aff)"
        unfolding same(2) applyToGroup_pair using r by simp
      moreover have "covered cls W s0 e0 st'" unfolding same(6,7) covered_def using c by blast
      ultimately show ?thesis using s' ms same(6) by blast
    qed
  next
    case multi
    let ?A' = "A @ (h, v) # M"
    have W': "W = ?A' @ (x, u) # B" using multi(1) by simp
    have ne: "M = [] \<longrightarrow> h \<noteq> x" using d multi(1) by auto
    have "tlen W = tlen ?A' + int (length u) + tlen B" unfolding W' by simp
    then have top: "tlen ?A' + t \<le> tlen W" using multi(6) tlen_nonneg[of B] by linarith
    have "\<exists>st1 a1. (if 0 < t then applyToNode cls st x 0 t else Some (st, [])) = Some (st1, a1) \<and>
            struct cls W (tlen ?A') st1 \<and> more_styled cls st st1 \<and>
            covered cls W (tlen ?A') (tlen ?A' + t) st1"
    proof (cases "0 < t")
      case True
      have Ft: "tlen ?A' + t \<le> F" using F multi(8) by simp
      from apply_range[OF s W' _ True multi(6) Ft] obtain st1 a1 where
        r: "applyToNode cls st x 0 t = Some (st1, a1)" and s1: "struct cls W (tlen ?A' + 0) st1"
        and ms: "more_styled cls st st1"
        and c: "\<forall>k. tlen ?A' + 0 \<le> int k \<and> int k < tlen ?A' + t \<longrightarrow> styled_chars cls (root st1) ! k"
        by auto
      have "covered cls W (tlen ?A') (tlen ?A' + t) st1" unfolding covered_def using c by simp
      with r s1 ms True show ?thesis by simp
    next
      case False
      have "struct cls W (tlen ?A') st" by (rule struct_mono[OF s]) (use F multi(5,8) in simp)
      moreover have "covered cls W (tlen ?A') (tlen ?A' + t) st"
        by (rule covered_empty) (use False in simp)
      ultimately show ?thesis using False more_styled_refl by simp
    qed
    then obtain st1 a1 where
      r1: "(if 0 < t then applyToNode cls st x 0 t else Some (st, [])) = Some (st1, a1)"
      and s1: "struct cls W (tlen ?A') st1" and ms1: "more_styled cls st st1"
      and c1: "covered cls W (tlen ?A') (tlen ?A' + t) st1" by blast
    have W2: "W = A @ (h, v) # M @ ((x, u) # B)" using multi(1) by simp
    from multi_cover[OF s1 W2 multi(3,4), of a1] obtain st2 a2 st3 a3 where
      r2: "wrap_each cls (rev (map fst M)) st1 a1 = Some (st2, a2)"
      and nv: "nodeValue h (root st2) = Some v"
      and r3: "applyToNode cls st2 h a (int (length v)) = Some (st3, a3)"
      and s3: "struct cls W (tlen A + a) st3" and ms3: "more_styled cls st1 st3"
      and c3: "covered cls W (tlen A + a) (tlen ?A') st3" by blast
    have run: "applyToGroup cls st g = Some (st3, rev (a2 @ a3))"
      by (rule group_multi_run[OF multi(2) ne r1 r2 nv r3])
    have "covered cls W (tlen ?A') (tlen ?A' + t) st3"
      by (rule covered_mono[OF c1 ms3 struct_length[OF s1] top])
    from covered_join[OF c3 this] have "covered cls W s0 e0 st3" unfolding multi(7,8) .
    with run s3 more_styled_trans[OF ms1 ms3] multi(7) show ?thesis by blast
  next
    case fall
    let ?A' = "A @ (h, v) # M"
    let ?M' = "M @ [(x, u)]"
    have W': "W = ?A' @ (x, u) # []" using fall(1) by simp
    have FT: "tlen W \<le> F" using F fall(6) by simp
    have Fx: "tlen ?A' + int (length u) \<le> F" using FT unfolding W' by simp
    have "\<exists>st1 a1. (if 0 < int (length u) then applyToNode cls st x 0 (int (length u)) else Some (st, []))
              = Some (st1, a1) \<and> struct cls W F st1 \<and> more_styled cls st st1"
    proof (cases "0 < int (length u)")
      case True
      from struct_value[OF s W' Fx] obtain B' where
        nv: "nodeValue x (root st) = Some u" and X: "text_nodes (root st) = ?A' @ (x, u) # B'" by blast
      from apply_whole[OF s X] obtain st1 n where
        r: "applyToWholeNode cls st x = Some (st1, n)" and s1: "struct cls W F st1"
        and ms: "more_styled cls st st1" by blast
      have "u \<noteq> []" using True by simp
      from applyToNode_whole[OF nv this, of cls] r
      have "applyToNode cls st x 0 (int (length u)) = Some (st1, [n])" by simp
      with True s1 ms show ?thesis by simp
    next
      case False
      with s more_styled_refl show ?thesis by simp
    qed
    then obtain st1 a1 where
      r1: "(if 0 < int (length u) then applyToNode cls st x 0 (int (length u)) else Some (st, []))
              = Some (st1, a1)"
      and s1: "struct cls W F st1" and ms1: "more_styled cls st st1" by blast
    have W2: "W = A @ (h, v) # ?M' @ []" using fall(1) by simp
    have tW: "tlen (A @ (h, v) # ?M') = tlen W" unfolding fall(1) by simp
    have s1': "struct cls W (tlen (A @ (h, v) # ?M')) st1"
      by (rule struct_mono[OF s1]) (use FT tW in simp)
    from multi_cover[OF s1' W2 fall(3,4), of a1] obtain st2 a2 st3 a3 where
      r2: "wrap_each cls (rev (map fst ?M')) st1 a1 = Some (st2, a2)"
      and nv: "nodeValue h (root st2) = Some v"
      and r3: "applyToNode cls st2 h a (int (length v)) = Some (st3, a3)"
      and s3: "struct cls W (tlen A + a) st3" and ms3: "more_styled cls st1 st3"
      and c3: "covered cls W (tlen A + a) (tlen (A @ (h, v) # ?M')) st3" by blast
    have ne: "?M' = [] \<longrightarrow> h \<noteq> x" by simp
    have run: "applyToGroup cls st g = Some (st3, rev (a2 @ a3))"
      by (rule group_multi_run[OF fall(2) ne r1 r2 nv r3])
    have "covered cls W s0 e0 st3" using c3 unfolding fall(5,6) tW .
    with run s3 more_styled_trans[OF ms1 ms3] fall(5) show ?thesis by blast
  qed
qed

lemma selection_positions_append:
  "selection_positions (A @ B) = selection_positions A @ selection_positions B"
  by (induction A rule: selection_positions.induct) auto

lemma chain_snoc: "chain (R @ [(s, e)]) F \<longleftrightarrow> chain R s \<and> s \<le> e \<and> e \<le> F"
  by (auto simp: chain_def selection_positions_append sorted_append)

lemma grp_bound:
  assumes "grp W g (s, e)"
  shows "e \<le> tlen W"
proof -
  from assms consider
      (short) "e \<le> tlen W"
    | (same) A h v B t where "W = A @ (h, v) # B" "t \<le> int (length v)" "e = tlen A + t"
    | (multi) A h v M x u B t where "W = A @ (h, v) # M @ (x, u) # B"
        "t \<le> int (length u)" "e = tlen (A @ (h, v) # M) + t"
    | (fall) "e = tlen W"
    unfolding grp_def by auto
  then show ?thesis
  proof cases
    case same
    have "tlen W = tlen A + int (length v) + tlen B" unfolding same(1) by simp
    then show ?thesis using same(2,3) tlen_nonneg[of B] by linarith
  next
    case multi
    have "tlen W = tlen (A @ (h, v) # M) + int (length u) + tlen B" unfolding multi(1) by simp
    then show ?thesis using multi(2,3) tlen_nonneg[of B] by linarith
  qed simp_all
qed

lemma groups_loop_cover:
  assumes "struct cls W F st" "list_all2 (grp W) G R" "chain R F" "distinct (map fst W)"
  shows "\<exists>st' aff'. groups_loop cls (rev G) st aff = Some (st', aff') \<and> more_styled cls st st' \<and>
           (\<forall>r\<in>set R. covered cls W (fst r) (snd r) st')"
  using assms(1,2,3)
proof (induction G arbitrary: R F st aff rule: rev_induct)
  case Nil
  then show ?case by (simp add: more_styled_refl)
next
  case (snoc g G)
  from snoc.prems(2) obtain R' r where R: "R = R' @ [r]" and l: "list_all2 (grp W) G R'" and gr: "grp W g r"
    by (auto simp: list_all2_append1 list_all2_Cons1)
  obtain s0 e0 where r: "r = (s0, e0)" by (cases r)
  from snoc.prems(3) have ch: "chain R' s0" and le: "s0 \<le> e0" "e0 \<le> F"
    unfolding R r chain_snoc by auto
  have g0: "grp W g (s0, e0)" using gr r by simp
  from applyToGroup_cover[OF snoc.prems(1) g0 le(2) assms(4)] obtain st1 aff1 where
    r1: "applyToGroup cls st g = Some (st1, aff1)" and s1: "struct cls W s0 st1"
    and ms1: "more_styled cls st st1" and c1: "covered cls W s0 e0 st1" by blast
  from snoc.IH[OF s1 l ch, of "aff @ [aff1]"] obtain st' aff' where
    r2: "groups_loop cls (rev G) st1 (aff @ [aff1]) = Some (st', aff')"
    and ms2: "more_styled cls st1 st'"
    and c2: "\<forall>r\<in>set R'. covered cls W (fst r) (snd r) st'" by blast
  have c1': "covered cls W s0 e0 st'"
    by (rule covered_mono[OF c1 ms2 struct_length[OF s1] grp_bound[OF g0]])
  have "groups_loop cls (rev (G @ [g])) st aff = Some (st', aff')" using r1 r2 by simp
  moreover have "\<forall>r\<in>set R. covered cls W (fst r) (snd r) st'" using c1' c2 R r by simp
  ultimately show ?case using more_styled_trans[OF ms1 ms2] by blast
qed

lemma sp_two:
  "selection_positions rem = a # b # ps \<Longrightarrow> \<exists>rem'. rem = (a, b) # rem' \<and> ps = selection_positions rem'"
  by (cases rem rule: selection_positions.cases) auto

lemma sp_one: "selection_positions rem \<noteq> [a]"
  by (cases rem rule: selection_positions.cases) auto

lemma sp_nil: "selection_positions rem = [] \<longleftrightarrow> rem = []"
  by (cases rem rule: selection_positions.cases) auto

lemma sp_mem: "x \<in> set rem \<Longrightarrow> fst x \<in> set (selection_positions rem) \<and> snd x \<in> set (selection_positions rem)"
  by (induction rem rule: selection_positions.induct) auto

lemma scan_node_miss:
  "\<not> (ws \<le> position \<and> position \<le> we) \<Longrightarrow>
   scan_node n ws we position positions finding done cur = Searching position positions finding done cur"
  by (cases positions) auto

lemma opened_current:
  assumes "0 \<le> a" "a < int (length u)"
  shows "opened (V @ [(x, u)]) [(x, a)] (tlen V + a)"
  unfolding opened_def
proof (intro exI conjI)
  show "V @ [(x, u)] = V @ (x, u) # []" by simp
  show "[(x, a)] = (x, a) # map (\<lambda>m. (fst m, 0)) []" by simp
qed (use assms in auto)

lemma opened_push:
  assumes "opened V cur s"
  shows "opened (V @ [(x, u)]) (cur @ [(x, 0)]) s"
proof -
  from assms obtain A h v M a where o: "V = A @ (h, v) # M" "cur = (h, a) # map (\<lambda>m. (fst m, 0)) M"
    "0 \<le> a" "a < int (length v)" "s = tlen A + a" unfolding opened_def by blast
  show ?thesis unfolding opened_def
  proof (intro exI conjI)
    show "V @ [(x, u)] = A @ (h, v) # (M @ [(x, u)])" using o(1) by simp
    show "cur @ [(x, 0)] = (h, a) # map (\<lambda>m. (fst m, 0)) (M @ [(x, u)])" using o(2) by simp
  qed (use o in auto)
qed

lemma close_grp:
  assumes W: "W = V @ (x, u) # rest"
    and m: "tlen V \<le> position" "position \<le> tlen V + int (length u) - 1" and le: "s \<le> position"
    and c: "opened V cur s \<or> (\<exists>a. cur = [(x, a)] \<and> 0 \<le> a \<and> a < int (length u) \<and> s = tlen V + a)"
  shows "grp W (cur @ [(x, position - tlen V)]) (s, position)"
  using c
proof
  assume "opened V cur s"
  then obtain A h v M a where o: "V = A @ (h, v) # M" "cur = (h, a) # map (\<lambda>m. (fst m, 0)) M"
    "0 \<le> a" "a < int (length v)" "s = tlen A + a" unfolding opened_def by blast
  have "\<exists>A h v M x' u' B a t. W = A @ (h, v) # M @ (x', u') # B \<and>
        cur @ [(x, position - tlen V)] = (h, a) # map (\<lambda>m. (fst m, 0)) M @ [(x', t)] \<and> 0 \<le> a \<and>
        a < int (length v) \<and> 0 \<le> t \<and> t \<le> int (length u') \<and>
        (s, position) = (tlen A + a, tlen (A @ (h, v) # M) + t)"
  proof (intro exI conjI)
    show "W = A @ (h, v) # M @ (x, u) # rest" using W o(1) by simp
    show "cur @ [(x, position - tlen V)] = (h, a) # map (\<lambda>m. (fst m, 0)) M @ [(x, position - tlen V)]"
      using o(2) by simp
    show "(s, position) = (tlen A + a, tlen (A @ (h, v) # M) + (position - tlen V))"
      using o(1,5) by simp
  qed (use o m in auto)
  then show ?thesis unfolding grp_def by blast
next
  assume "\<exists>a. cur = [(x, a)] \<and> 0 \<le> a \<and> a < int (length u) \<and> s = tlen V + a"
  then obtain a where o: "cur = [(x, a)]" "0 \<le> a" "a < int (length u)" "s = tlen V + a" by blast
  have "\<exists>A h v B a t. W = A @ (h, v) # B \<and> cur @ [(x, position - tlen V)] = [(h, a), (h, t)] \<and>
        0 \<le> a \<and> a \<le> t \<and> t \<le> int (length v) \<and> (s, position) = (tlen A + a, tlen A + t)"
  proof (intro exI conjI)
    show "W = V @ (x, u) # rest" by (rule W)
    show "cur @ [(x, position - tlen V)] = [(x, a), (x, position - tlen V)]" using o(1) by simp
    show "(s, position) = (tlen V + a, tlen V + (position - tlen V))" using o(4) by simp
  qed (use o m le in auto)
  then show ?thesis unfolding grp_def by blast
qed

lemma grp_none: "grp W [] (tlen W, tlen W)"
  by (simp add: grp_def)

lemma scan_grp:
  assumes W: "W = V @ (x, u) # rest" and srt: "sorted (selection_positions sels @ [tlen W])"
    and sels: "sels = R0 @ rem" and d: "list_all2 (grp W) done R0"
    and p: "selection_positions rem = (if finding then [s] else []) @ position # positions"
    and lo: "tlen V \<le> position"
    and c: "if finding then (position \<le> tlen V + int (length u) - 1 \<and> opened V cur s) \<or>
              (\<exists>a. cur = [(x, a)] \<and> 0 \<le> a \<and> a < int (length u) \<and> s = tlen V + a) \<or>
              (tlen V + int (length u) - 1 < position \<and> opened (V @ [(x, u)]) cur s)
            else cur = []"
  shows "case scan_node x (tlen V) (tlen V + int (length u) - 1) position positions finding done cur of
           Returned G \<Rightarrow> res W G sels
         | Searching p' ps' f' done' cur' \<Rightarrow> winv W sels (V @ [(x, u)]) p' ps' f' done' cur'"
  using sels d p lo c
proof (induction positions arbitrary: position finding "done" cur R0 rem s)
  case Nil
  note pr = Nil.prems
  let ?we = "tlen V + int (length u) - 1"
  have s2: "sorted (selection_positions R0 @ selection_positions rem @ [tlen W])"
    using srt pr(1) by (simp add: selection_positions_append)
  show ?case
  proof (cases "tlen V \<le> position \<and> position \<le> ?we")
    case False
    then have gt: "?we < position" using pr(4) by simp
    have o: "if finding then opened (V @ [(x, u)]) cur s else cur = []"
      using pr(5) gt opened_current by (auto split: if_splits)
    have "winv W sels (V @ [(x, u)]) position [] finding done cur"
      unfolding winv_def using pr(1,2,3) gt o by (intro exI[of _ R0] exI[of _ rem] exI[of _ s]) simp
    then show ?thesis by (simp only: scan_node_miss[OF False] scan.case)
  next
    case m: True
    have f: finding using pr(3) sp_one[of rem position] by (cases finding) auto
    with pr(3) have "selection_positions rem = s # position # []" by simp
    from sp_two[OF this] have rem: "rem = [(s, position)]" using sp_nil by metis
    have le: "s \<le> position" "position \<le> tlen W" using s2 rem by (auto simp: sorted_append)
    have cc: "opened V cur s \<or> (\<exists>a. cur = [(x, a)] \<and> 0 \<le> a \<and> a < int (length u) \<and> s = tlen V + a)"
      using pr(5) f m by auto
    have g: "grp W (cur @ [(x, position - tlen V)]) (s, position)"
      using close_grp[OF W _ _ le(1) cc] m by simp
    let ?R = "R0 @ [(s, position), (tlen W, tlen W)]"
    have "list_all2 (grp W) (done @ [cur @ [(x, position - tlen V)]] @ [[]]) ?R"
      using pr(2) g grp_none[of W] by (auto intro!: list_all2_appendI)
    moreover have "chain ?R (tlen W)"
      using s2 rem le by (auto simp: chain_def selection_positions_append sorted_append)
    moreover have "\<forall>y\<in>set sels. fst y < snd y \<longrightarrow> y \<in> set ?R" using pr(1) rem by auto
    ultimately have "res W (done @ [cur @ [(x, position - tlen V)]] @ [[]]) sels"
      unfolding res_def by blast
    then show ?thesis using m f by simp
  qed
next
  case (Cons q qs)
  note pr = Cons.prems
  let ?we = "tlen V + int (length u) - 1"
  have s2: "sorted (selection_positions R0 @ selection_positions rem @ [tlen W])"
    using srt pr(1) by (simp add: selection_positions_append)
  show ?case
  proof (cases "tlen V \<le> position \<and> position \<le> ?we")
    case False
    then have gt: "?we < position" using pr(4) by simp
    have o: "if finding then opened (V @ [(x, u)]) cur s else cur = []"
      using pr(5) gt opened_current by (auto split: if_splits)
    have "winv W sels (V @ [(x, u)]) position (q # qs) finding done cur"
      unfolding winv_def using pr(1,2,3) gt o by (intro exI[of _ R0] exI[of _ rem] exI[of _ s]) simp
    then show ?thesis by (simp only: scan_node_miss[OF False] scan.case)
  next
    case m: True
    show ?thesis
    proof (cases finding)
      case True
      with pr(3) have "selection_positions rem = s # position # q # qs" by simp
      from sp_two[OF this] obtain rem' where rem: "rem = (s, position) # rem'"
        and qs: "q # qs = selection_positions rem'" by blast
      have le: "s \<le> position" "position \<le> q"
        using s2 rem qs[symmetric] by (auto simp: sorted_append)
      have cc: "opened V cur s \<or> (\<exists>a. cur = [(x, a)] \<and> 0 \<le> a \<and> a < int (length u) \<and> s = tlen V + a)"
        using pr(5) True m by auto
      have g: "grp W (cur @ [(x, position - tlen V)]) (s, position)"
        using close_grp[OF W _ _ le(1) cc] m by simp
      have i1: "sels = (R0 @ [(s, position)]) @ rem'" using pr(1) rem by simp
      have i2: "list_all2 (grp W) (done @ [cur @ [(x, position - tlen V)]]) (R0 @ [(s, position)])"
        using pr(2) g by (auto intro!: list_all2_appendI)
      have i3: "selection_positions rem' = (if False then [s] else []) @ q # qs" using qs by simp
      have i4: "tlen V \<le> q" using m le by simp
      have i5: "if False then (q \<le> ?we \<and> opened V [] s) \<or>
              (\<exists>a. [] = [(x, a)] \<and> 0 \<le> a \<and> a < int (length u) \<and> s = tlen V + a) \<or>
              (?we < q \<and> opened (V @ [(x, u)]) [] s)
            else ([] :: node_and_offset list) = []" by simp
      from Cons.IH[OF i1 i2 i3 i4 i5] show ?thesis using m True by simp
    next
      case False
      with pr(3) have sp: "selection_positions rem = position # q # qs" by simp
      from sp_two[OF sp] obtain rem' where rem: "rem = (position, q) # rem'" by blast
      have le: "position \<le> q" using s2 rem by (auto simp: sorted_append)
      have c0: "cur = []" using pr(5) False by simp
      have i3: "selection_positions rem = (if True then [position] else []) @ q # qs" using sp by simp
      have i4: "tlen V \<le> q" using m le by simp
      have i5: "if True then (q \<le> ?we \<and> opened V [(x, position - tlen V)] position) \<or>
              (\<exists>a. [(x, position - tlen V)] = [(x, a)] \<and> 0 \<le> a \<and> a < int (length u) \<and>
                 position = tlen V + a) \<or>
              (?we < q \<and> opened (V @ [(x, u)]) [(x, position - tlen V)] position)
            else [(x, position - tlen V)] = []" using m by simp
      from Cons.IH[OF pr(1,2) i3 i4 i5] show ?thesis using m False c0 by simp
    qed
  qed
qed

lemma walk_end:
  assumes srt: "sorted (selection_positions sels @ [tlen W])"
    and inv: "winv W sels W position positions finding done cur"
    and ln: "W \<noteq> [] \<longrightarrow> lastNode = (fst (last W), int (length (snd (last W))))"
  shows "res W (done @ [cur @ [lastNode]]) sels"
proof -
  from inv obtain R0 rem s where sels: "sels = R0 @ rem" and d: "list_all2 (grp W) done R0"
    and p: "selection_positions rem = (if finding then [s] else []) @ position # positions"
    and lo: "tlen W \<le> position" and c: "if finding then opened W cur s else cur = []"
    unfolding winv_def by blast
  have s2: "sorted (selection_positions R0 @ selection_positions rem @ [tlen W])"
    using srt sels by (simp add: selection_positions_append)
  have pT: "position = tlen W" using s2 p lo by (auto simp: sorted_append split: if_splits)
  show ?thesis
  proof (cases finding)
    case True
    with p have "selection_positions rem = s # position # positions" by simp
    from sp_two[OF this] obtain rem' where rem: "rem = (s, position) # rem'"
      and ps: "positions = selection_positions rem'" by blast
    have after: "\<forall>z\<in>set (selection_positions rem'). z = tlen W"
      using s2 rem pT by (auto simp: sorted_append intro!: antisym)
    have le: "s \<le> tlen W" using s2 rem pT by (auto simp: sorted_append)
    from c True obtain A h v M a where o: "W = A @ (h, v) # M" "cur = (h, a) # map (\<lambda>m. (fst m, 0)) M"
      "0 \<le> a" "a < int (length v)" "s = tlen A + a" unfolding opened_def by auto
    have ne: "W \<noteq> []" using o(1) by simp
    have g: "grp W (cur @ [lastNode]) (s, tlen W)"
    proof (cases M rule: rev_cases)
      case Nil
      have l: "lastNode = (h, int (length v))" using ln ne o(1) Nil by simp
      have "\<exists>A h v B a t. W = A @ (h, v) # B \<and> cur @ [lastNode] = [(h, a), (h, t)] \<and>
          0 \<le> a \<and> a \<le> t \<and> t \<le> int (length v) \<and> (s, tlen W) = (tlen A + a, tlen A + t)"
      proof (intro exI conjI)
        show "W = A @ (h, v) # []" using o(1) Nil by simp
        show "cur @ [lastNode] = [(h, a), (h, int (length v))]" using o(2) Nil l by simp
        show "(s, tlen W) = (tlen A + a, tlen A + int (length v))" using o(1,5) Nil by simp
      qed (use o in auto)
      then show ?thesis unfolding grp_def by blast
    next
      case (snoc M0 y)
      obtain x u where y: "y = (x, u)" by (cases y)
      have l: "lastNode = (x, int (length u))" using ln ne o(1) snoc y by simp
      have "\<exists>A h v M x u a. W = A @ (h, v) # M @ [(x, u)] \<and>
          cur @ [lastNode] = (h, a) # map (\<lambda>m. (fst m, 0)) (M @ [(x, u)]) @ [(x, int (length u))] \<and>
          0 \<le> a \<and> a < int (length v) \<and> (s, tlen W) = (tlen A + a, tlen W)"
      proof (intro exI conjI)
        show "W = A @ (h, v) # M0 @ [(x, u)]" using o(1) snoc y by simp
        show "cur @ [lastNode] = (h, a) # map (\<lambda>m. (fst m, 0)) (M0 @ [(x, u)]) @ [(x, int (length u))]"
          using o(2) snoc y l by simp
        show "(s, tlen W) = (tlen A + a, tlen W)" using o(5) by simp
      qed (use o in auto)
      then show ?thesis unfolding grp_def by blast
    qed
    let ?R = "R0 @ [(s, tlen W)]"
    have "list_all2 (grp W) (done @ [cur @ [lastNode]]) ?R"
      using d g by (auto intro!: list_all2_appendI)
    moreover have "chain ?R (tlen W)"
      unfolding chain_snoc using s2 rem le by (auto simp: chain_def sorted_append)
    moreover have "\<forall>y\<in>set sels. fst y < snd y \<longrightarrow> y \<in> set ?R"
    proof (intro ballI impI)
      fix y assume y: "y \<in> set sels" "fst y < snd y"
      have "y \<notin> set rem'"
      proof
        assume "y \<in> set rem'"
        from sp_mem[OF this] after have "fst y = tlen W" "snd y = tlen W" by auto
        with y(2) show False by simp
      qed
      with y(1) sels rem pT show "y \<in> set ?R" by auto
    qed
    ultimately show ?thesis unfolding res_def by blast
  next
    case False
    with c have c0: "cur = []" by simp
    from False p have sp: "selection_positions rem = position # positions" by simp
    have after: "\<forall>z\<in>set (selection_positions rem). z = tlen W"
      using s2 sp pT by (auto simp: sorted_append intro!: antisym)
    have g: "grp W (cur @ [lastNode]) (tlen W, tlen W)" using c0 by (simp add: grp_def)
    let ?R = "R0 @ [(tlen W, tlen W)]"
    have "list_all2 (grp W) (done @ [cur @ [lastNode]]) ?R"
      using d g by (auto intro!: list_all2_appendI)
    moreover have "chain ?R (tlen W)"
      unfolding chain_snoc using s2 sp pT by (auto simp: chain_def sorted_append)
    moreover have "\<forall>y\<in>set sels. fst y < snd y \<longrightarrow> y \<in> set ?R"
    proof (intro ballI impI)
      fix y assume y: "y \<in> set sels" "fst y < snd y"
      have "y \<notin> set rem"
      proof
        assume "y \<in> set rem"
        from sp_mem[OF this] after have "fst y = tlen W" "snd y = tlen W" by auto
        with y(2) show False by simp
      qed
      with y(1) sels show "y \<in> set ?R" by auto
    qed
    ultimately show ?thesis unfolding res_def by blast
  qed
qed

lemma walk_grp:
  assumes W: "W = V @ rest" and srt: "sorted (selection_positions sels @ [tlen W])"
    and inv: "winv W sels V position positions finding done cur"
    and ln: "V \<noteq> [] \<longrightarrow> lastNode = (fst (last V), int (length (snd (last V))))"
  shows "res W (walk rest lastNode (tlen V) position positions finding done cur) sels"
  using W inv ln
proof (induction rest arbitrary: V lastNode position positions finding "done" cur)
  case Nil
  then have V: "V = W" by simp
  show ?case using walk_end[OF srt] Nil.prems(2,3) unfolding V by simp
next
  case (Cons y rest)
  obtain x u where y: "y = (x, u)" by (cases y)
  have W': "W = V @ (x, u) # rest" using Cons.prems(1) y by simp
  let ?we = "tlen V + int (length u) - 1"
  let ?cur1 = "if finding \<and> position > ?we then cur @ [(x, 0)] else cur"
  from Cons.prems(2) obtain R0 rem s where sels: "sels = R0 @ rem" and d: "list_all2 (grp W) done R0"
    and p: "selection_positions rem = (if finding then [s] else []) @ position # positions"
    and lo: "tlen V \<le> position" and c: "if finding then opened V cur s else cur = []"
    unfolding winv_def by blast
  have c1: "if finding then (position \<le> ?we \<and> opened V ?cur1 s) \<or>
              (\<exists>a. ?cur1 = [(x, a)] \<and> 0 \<le> a \<and> a < int (length u) \<and> s = tlen V + a) \<or>
              (?we < position \<and> opened (V @ [(x, u)]) ?cur1 s)
            else ?cur1 = []"
  proof (cases finding)
    case True
    with c have o: "opened V cur s" by simp
    show ?thesis
    proof (cases "position > ?we")
      case True
      with opened_push[OF o, of x u] \<open>finding\<close> show ?thesis by simp
    next
      case False
      with o \<open>finding\<close> show ?thesis by simp
    qed
  next
    case False
    with c show ?thesis by simp
  qed
  note sc = scan_grp[OF W' srt sels d p lo c1]
  have unf: "walk (y # rest) lastNode (tlen V) position positions finding done cur =
      (case scan_node x (tlen V) ?we position positions finding done ?cur1 of
         Returned groups \<Rightarrow> groups
       | Searching position' positions' finding' done' cur' \<Rightarrow>
           walk rest (x, int (length u)) (tlen V + int (length u)) position' positions' finding' done' cur')"
    unfolding y by (simp add: Let_def)
  show ?case
  proof (cases "scan_node x (tlen V) ?we position positions finding done ?cur1")
    case (Returned G)
    with sc have "res W G sels" by simp
    then show ?thesis unfolding unf Returned by simp
  next
    case (Searching p' ps' f' d' c')
    with sc have w: "winv W sels (V @ [(x, u)]) p' ps' f' d' c'" by simp
    have W2: "W = (V @ [(x, u)]) @ rest" using W' by simp
    have l2: "V @ [(x, u)] \<noteq> [] \<longrightarrow>
        (x, int (length u)) = (fst (last (V @ [(x, u)])), int (length (snd (last (V @ [(x, u)])))))" by simp
    from Cons.IH[OF W2 w l2]
    have "res W (walk rest (x, int (length u)) (tlen V + int (length u)) p' ps' f' d' c') sels" by simp
    then show ?thesis unfolding unf Searching by simp
  qed
qed

lemma resolve_grp:
  assumes r: "\<not> is_text r" and ne: "sels \<noteq> []"
    and srt: "sorted (0 # selection_positions sels @ [tlen (text_nodes r)])"
  shows "res (text_nodes r) (findNodeAndOffsetGroups r sels) sels"
proof -
  let ?W = "text_nodes r"
  from ne obtain position positions where sp: "selection_positions sels = position # positions"
    by (cases "selection_positions sels") (auto simp: sp_nil)
  have srt': "sorted (selection_positions sels @ [tlen ?W])" using srt by simp
  have p0: "0 \<le> position" using srt sp by simp
  have inv: "winv ?W sels [] position positions False [] []"
    unfolding winv_def using sp p0 by (intro exI[of _ "[]"] exI[of _ sels] exI[of _ 0]) simp
  have "res ?W (walk ?W (root_last r) (tlen []) position positions False [] []) sels"
    by (rule walk_grp[OF _ srt' inv]) simp_all
  then show ?thesis
    unfolding findNodeAndOffsetGroups_def sp treeWalker_text_nodes[OF r] by simp
qed

section \<open>The path over several nodes\<close>





section \<open>The properties\<close>

text \<open>
  Claim C1. For every well-formed document and every list of ranges whose start is at most
  their end, \<open>applyToRanges\<close> returns, and the concatenation of the texts of the leaves
  below the root, in document order, is the same after it as before.
\<close>

theorem applyToRanges_content:
  "wf st \<and> (\<forall>x\<in>set textSelections. fst x \<le> snd x) \<longrightarrow>
   (\<exists>st' groups. applyToRanges cls st textSelections = Some (st', groups) \<and>
      textContent (root st') = textContent (root st))"
proof
  assume a: "wf st \<and> (\<forall>x\<in>set textSelections. fst x \<le> snd x)"
  then have w: "wf st" and le: "\<forall>x\<in>set textSelections. fst x \<le> snd x" by auto
  let ?W = "fst ` set (text_nodes (root st))"
  let ?T = "textContent (root st)"
  have k: "keeps ?W ?T False False st" using w by (simp add: keeps_def)
  from w have d: "distinct (ids (root st))" and nt: "\<not> is_text (root st)" by (auto simp: wf_def)
  have ok: "\<forall>g\<in>set (rev (findNodeAndOffsetGroups (root st) textSelections)). group_ok ?W g"
    using groups_ok[OF d nt le] by simp
  from groups_loop_keeps[OF k ok, of cls "[]"] obtain st' r where
    "groups_loop cls (rev (findNodeAndOffsetGroups (root st) textSelections)) st [] = Some (st', r)"
    "keeps ?W ?T False False st'" by blast
  then show "\<exists>st' groups. applyToRanges cls st textSelections = Some (st', groups) \<and>
      textContent (root st') = textContent (root st)"
    by (auto simp: applyToRanges_def keeps_def)
qed

theorem applyToRanges_content_witness:
  "wf example_doc \<and> (3 :: int) \<le> 6 \<and>
   (\<exists>st' groups. applyToRanges ''foo'' example_doc [(3, 6)] = Some (st', groups) \<and>
      textContent (root st') = ''0123456789abcdefghij'')"
  using applyToRanges_content[of example_doc "[(3, 6)]" "''foo''"]
  by (simp add: wf_def example_doc_def textContent_def)

text \<open>
  Claim C2, amended. For every well-formed document and every list of ranges whose offsets
  are in ascending order and lie between 0 and the length of the text, \<open>applyToRanges\<close>
  returns, and every character at a global index from the start of a requested range up to,
  not including, its end is afterwards in a leaf that lies in a container carrying the
  class, unless the text node that held the character has the line break as its whole
  value.
\<close>

theorem applyToRanges_coverage:
  "wf st \<and> sorted (0 # selection_positions textSelections @ [int (length (textContent (root st)))]) \<longrightarrow>
   (\<exists>st' groups. applyToRanges cls st textSelections = Some (st', groups) \<and>
      (\<forall>k. (\<exists>x\<in>set textSelections. fst x \<le> int k \<and> int k < snd x) \<and>
            \<not> line_breaks (text_nodes (root st)) ! k \<longrightarrow>
            styled_chars cls (root st') ! k))"
proof
  assume a: "wf st \<and> sorted (0 # selection_positions textSelections @ [int (length (textContent (root st)))])"
  let ?W = "text_nodes (root st)"
  have T: "int (length (textContent (root st))) = tlen ?W" by (simp add: textContent_def tlen_def)
  from a have w: "wf st" and srt: "sorted (0 # selection_positions textSelections @ [tlen ?W])"
    unfolding T by auto
  show "\<exists>st' groups. applyToRanges cls st textSelections = Some (st', groups) \<and>
      (\<forall>k. (\<exists>x\<in>set textSelections. fst x \<le> int k \<and> int k < snd x) \<and>
            \<not> line_breaks ?W ! k \<longrightarrow> styled_chars cls (root st') ! k)"
  proof (cases "textSelections = []")
    case True
    then show ?thesis by (simp add: applyToRanges_def)
  next
    case False
    from w have nt: "\<not> is_text (root st)" and d: "distinct (ids (root st))" by (auto simp: wf_def)
    from resolve_grp[OF nt False srt] obtain R where
      l: "list_all2 (grp ?W) (findNodeAndOffsetGroups (root st) textSelections) R"
      and ch: "chain R (tlen ?W)"
      and mem: "\<forall>x\<in>set textSelections. fst x < snd x \<longrightarrow> x \<in> set R"
      unfolding res_def by blast
    have s: "struct cls ?W (tlen ?W) st" using w by (simp add: struct_def frontier_start)
    from groups_loop_cover[OF s l ch text_nodes_distinct[OF d], of "[]"] obtain st' aff' where
      r: "groups_loop cls (rev (findNodeAndOffsetGroups (root st) textSelections)) st [] = Some (st', aff')"
      and c: "\<forall>r\<in>set R. covered cls ?W (fst r) (snd r) st'" by blast
    have ap: "applyToRanges cls st textSelections = Some (st', rev aff')"
      using r False by (simp add: applyToRanges_def)
    have "\<forall>k. (\<exists>x\<in>set textSelections. fst x \<le> int k \<and> int k < snd x) \<and>
            \<not> line_breaks ?W ! k \<longrightarrow> styled_chars cls (root st') ! k"
    proof (intro allI impI)
      fix k assume k: "(\<exists>x\<in>set textSelections. fst x \<le> int k \<and> int k < snd x) \<and> \<not> line_breaks ?W ! k"
      then obtain x where x: "x \<in> set textSelections" "fst x \<le> int k" "int k < snd x" by blast
      then have "fst x < snd x" by simp
      with mem x(1) have "x \<in> set R" by blast
      with c have "covered cls ?W (fst x) (snd x) st'" by blast
      with x k show "styled_chars cls (root st') ! k" unfolding covered_def by blast
    qed
    with ap show ?thesis by blast
  qed
qed

theorem applyToRanges_coverage_witness:
  "wf lines_doc \<and>
   sorted (0 # selection_positions [(0, 5)] @ [int (length (textContent (root lines_doc)))]) \<and>
   \<not> line_breaks (text_nodes (root lines_doc)) ! 3 \<and>
   (\<exists>st' groups. applyToRanges ''foo'' lines_doc [(0, 5)] = Some (st', groups) \<and>
      styled_chars ''foo'' (root st') ! 3)"
proof -
  have h: "wf lines_doc \<and>
      sorted (0 # selection_positions [(0, 5)] @ [int (length (textContent (root lines_doc)))])"
    by (simp add: wf_def lines_doc_def textContent_def)
  have nl: "\<not> line_breaks (text_nodes (root lines_doc)) ! 3"
    by (simp add: lines_doc_def line_breaks_def)
  from applyToRanges_coverage[of lines_doc "[(0, 5)]" "''foo''"] h obtain st' groups where
    r: "applyToRanges ''foo'' lines_doc [(0, 5)] = Some (st', groups)"
    and c: "\<forall>k. (\<exists>x\<in>set [(0 :: int, 5 :: int)]. fst x \<le> int k \<and> int k < snd x) \<and>
            \<not> line_breaks (text_nodes (root lines_doc)) ! k \<longrightarrow> styled_chars ''foo'' (root st') ! k"
    by blast
  from c[rule_format, of 3] nl have "styled_chars ''foo'' (root st') ! 3" by simp
  with h nl r show ?thesis by blast
qed

text \<open>
  Claim C2 as stated fails on a text node whose value is the line break: the loop over the
  interior nodes of a group skips it. In the document with the three text nodes \<open>ab\<close>,
  line break, \<open>cd\<close> and the range from 0 to 5, the character at the index 2 is in the
  range and its leaf is in no container with the class afterwards.
\<close>

theorem line_break_not_covered:
  "wf lines_doc \<and>
   sorted (0 # selection_positions [(0, 5)] @ [int (length (textContent (root lines_doc)))]) \<and>
   applyToRanges ''foo'' lines_doc [(0, 5)] =
     Some (\<lparr>root = Element 0 ''div'' []
              [Element 5 ''span'' [''foo''] [TextNode 1 ''ab''], TextNode 2 [CHR 0x0A],
               Element 4 ''span'' [''foo''] [TextNode 3 ''cd'']],
            next_id = 6\<rparr>, [[5, 4, 4]]) \<and>
   styled_chars ''foo'' (Element 0 ''div'' []
              [Element 5 ''span'' [''foo''] [TextNode 1 ''ab''], TextNode 2 [CHR 0x0A],
               Element 4 ''span'' [''foo''] [TextNode 3 ''cd'']]) = [True, True, False, True, True] \<and>
   (0 :: int) \<le> int 2 \<and> int 2 < 5 \<and>
   \<not> styled_chars ''foo'' (Element 0 ''div'' []
              [Element 5 ''span'' [''foo''] [TextNode 1 ''ab''], TextNode 2 [CHR 0x0A],
               Element 4 ''span'' [''foo''] [TextNode 3 ''cd'']]) ! 2"
  by (simp add: wf_def lines_doc_def textContent_def styled_chars_def flags_def
        applyToRanges_def findNodeAndOffsetGroups_def treeWalker_def root_last_def applyToGroup_def
        applyToNode_def applyToWholeNode_def Let_def substring_def set_nodeValue_def nextSibling_def)

lemma substring_take_drop:
  "0 \<le> a \<Longrightarrow> a \<le> b \<Longrightarrow> b \<le> int (length v) \<Longrightarrow>
   substring v a b = take (nat (b - a)) (drop (nat a) v)"
  by (simp add: substring_def Let_def min_def max_def)

lemma substring_prefix: "0 \<le> b \<Longrightarrow> b \<le> int (length v) \<Longrightarrow> substring v 0 b = take (nat b) v"
  using substring_take_drop[of 0 b v] by simp

lemma substring_suffix:
  "0 \<le> a \<Longrightarrow> a \<le> int (length v) \<Longrightarrow> substring v a (int (length v)) = drop (nat a) v"
  using substring_take_drop[of a "int (length v)" v] by simp

text \<open>
  Claim C6. A range inside one text leaf, not the whole leaf. With \<open>start = 0\<close> a new
  container with the class, holding the text \<open>[0, end)\<close>, is inserted before the leaf, and
  the leaf keeps the remainder. With \<open>start > 0\<close> the leaf keeps the text before \<open>start\<close>,
  a new container with the text \<open>[start, end)\<close> follows it, and a new leaf with the text from
  \<open>end\<close> follows the container exactly when \<open>end\<close> is less than the length. On the text
  \<open>0123456789abcdefghij\<close>, the range (3, 6) with the class \<open>foo\<close> gives
  \<open>012<foo>345</foo>6789abcdefghij\<close>.
\<close>

theorem applyToNode_partial_span:
  "(wf st \<and> parentNode n (root st) = Some (Element p t c (pre @ TextNode n v # post)) \<and>
    0 \<le> s \<and> s < e \<and> e \<le> int (length v) \<and> \<not> (s = 0 \<and> e = int (length v)) \<longrightarrow>
    applyToNode cls st n s e =
      Some (\<lparr>root = replace_node p
               (Element p t c
                  (pre @
                   (if s = 0
                    then [Element (next_id st) ''span'' [cls] [TextNode (next_id st + 1) (take (nat e) v)],
                          TextNode n (drop (nat e) v)]
                    else [TextNode n (take (nat s) v),
                          Element (next_id st) ''span'' [cls]
                            [TextNode (next_id st + 1) (take (nat (e - s)) (drop (nat s) v))]] @
                         (if e < int (length v) then [TextNode (next_id st + 2) (drop (nat e) v)] else []))
                   @ post))
               (root st),
             next_id = (if s \<noteq> 0 \<and> e < int (length v) then next_id st + 3 else next_id st + 2)\<rparr>,
            [next_id st])) \<and>
   applyToRanges ''foo'' example_doc [(3, 6)] =
     Some (\<lparr>root = Element 0 ''div'' []
              [TextNode 1 ''012'', Element 2 ''span'' [''foo''] [TextNode 3 ''345''],
               TextNode 4 ''6789abcdefghij''],
            next_id = 5\<rparr>, [[2], []])"
proof (intro conjI impI)
  assume a: "wf st \<and> parentNode n (root st) = Some (Element p t c (pre @ TextNode n v # post)) \<and>
    0 \<le> s \<and> s < e \<and> e \<le> int (length v) \<and> \<not> (s = 0 \<and> e = int (length v))"
  then have w: "wf st" and pn: "parentNode n (root st) = Some (Element p t c (pre @ TextNode n v # post))"
    and s0: "0 \<le> s" and se: "s < e" and el: "e \<le> int (length v)"
    and nw: "\<not> (s = 0 \<and> e = int (length v))" by auto
  show "applyToNode cls st n s e =
      Some (\<lparr>root = replace_node p
               (Element p t c
                  (pre @
                   (if s = 0
                    then [Element (next_id st) ''span'' [cls] [TextNode (next_id st + 1) (take (nat e) v)],
                          TextNode n (drop (nat e) v)]
                    else [TextNode n (take (nat s) v),
                          Element (next_id st) ''span'' [cls]
                            [TextNode (next_id st + 1) (take (nat (e - s)) (drop (nat s) v))]] @
                         (if e < int (length v) then [TextNode (next_id st + 2) (drop (nat e) v)] else []))
                   @ post))
               (root st),
             next_id = (if s \<noteq> 0 \<and> e < int (length v) then next_id st + 3 else next_id st + 2)\<rparr>,
            [next_id st])"
  proof (cases "s = 0")
    case True
    with se nw have e: "e \<noteq> 0" "e \<noteq> int (length v)" by auto
    have "substring v 0 e = take (nat e) v" using se True el by (simp add: substring_prefix)
    moreover have "substring v e (int (length v)) = drop (nat e) v"
      using se True el by (simp add: substring_suffix)
    ultimately show ?thesis using applyToNode_head[OF w pn e, of cls] True by simp
  next
    case False
    with se have ne: "s \<noteq> 0" "s \<noteq> e" by auto
    have "substring v 0 s = take (nat s) v" using s0 se el by (simp add: substring_prefix)
    moreover have "substring v s e = take (nat (e - s)) (drop (nat s) v)"
      using s0 se el by (simp add: substring_take_drop)
    moreover have "substring v e (int (length v)) = drop (nat e) v"
      using s0 se el by (simp add: substring_suffix)
    ultimately show ?thesis using applyToNode_middle[OF w pn ne, of cls] False by simp
  qed
next
  show "applyToRanges ''foo'' example_doc [(3, 6)] =
     Some (\<lparr>root = Element 0 ''div'' []
              [TextNode 1 ''012'', Element 2 ''span'' [''foo''] [TextNode 3 ''345''],
               TextNode 4 ''6789abcdefghij''],
            next_id = 5\<rparr>, [[2], []])"
    by (simp add: applyToRanges_def example_doc_def findNodeAndOffsetGroups_def treeWalker_def
        root_last_def applyToGroup_def applyToNode_def Let_def substring_def set_nodeValue_def
        nextSibling_def)
qed


theorem applyToNode_partial_span_witness:
  "wf example_doc \<and>
   parentNode 1 (root example_doc) = Some (Element 0 ''div'' [] ([] @ TextNode 1 ''0123456789abcdefghij'' # [])) \<and>
   applyToNode ''foo'' example_doc 1 3 6 =
     Some (\<lparr>root = Element 0 ''div'' []
              [TextNode 1 ''012'', Element 2 ''span'' [''foo''] [TextNode 3 ''345''],
               TextNode 4 ''6789abcdefghij''],
            next_id = 5\<rparr>, [2])"
proof -
  have w: "wf example_doc" by (simp add: wf_def example_doc_def)
  have pn: "parentNode 1 (root example_doc) =
      Some (Element 0 ''div'' [] ([] @ TextNode 1 ''0123456789abcdefghij'' # []))"
    by (simp add: example_doc_def)
  from applyToNode_partial_span[of example_doc 1 0 "''div''" "[]" "[]" "''0123456789abcdefghij''" "[]" 3 6 "''foo''"]
    w pn
  have "applyToNode ''foo'' example_doc 1 3 6 =
     Some (\<lparr>root = Element 0 ''div'' []
              [TextNode 1 ''012'', Element 2 ''span'' [''foo''] [TextNode 3 ''345''],
               TextNode 4 ''6789abcdefghij''],
            next_id = 5\<rparr>, [2])"
    by (simp add: example_doc_def)
  with w pn show ?thesis by simp
qed

text \<open>
  Claim C9. Wrapping a whole node: when the parent has no other child, the parent gets the
  class and no node is created; otherwise a new container with the class takes the place
  of the node, and the node becomes its only child.
\<close>

theorem applyToWholeNode_rule:
  "wf st \<and> parentNode n (root st) = Some (Element p t c ks) \<longrightarrow>
   (length ks = 1 \<longrightarrow>
      applyToWholeNode cls st n =
        Some (st\<lparr>root := replace_node p
                 (Element p t (if cls \<in> set c then c else c @ [cls]) ks) (root st)\<rparr>, p)) \<and>
   (length ks \<noteq> 1 \<longrightarrow>
      (\<exists>pre node post. ks = pre @ node # post \<and> node_id node = n \<and>
         applyToWholeNode cls st n =
           Some (\<lparr>root = replace_node p
                    (Element p t c (pre @ Element (next_id st) ''span'' [cls] [node] # post)) (root st),
                  next_id = next_id st + 1\<rparr>, next_id st)))"
  using applyToWholeNode_single[of st n p t c ks cls] applyToWholeNode_wrap[of st n p t c ks cls]
  by blast

theorem applyToWholeNode_rule_witness:
  "applyToWholeNode ''foo'' example_doc 1 =
     Some (\<lparr>root = Element 0 ''div'' [''foo''] [TextNode 1 ''0123456789abcdefghij''], next_id = 2\<rparr>, 0) \<and>
   applyToWholeNode ''foo'' lines_doc 2 =
     Some (\<lparr>root = Element 0 ''div'' []
              [TextNode 1 ''ab'', Element 4 ''span'' [''foo''] [TextNode 2 [CHR 0x0A]], TextNode 3 ''cd''],
            next_id = 5\<rparr>, 4)"
proof -
  have w1: "wf example_doc" by (simp add: wf_def example_doc_def)
  have p1: "parentNode 1 (root example_doc) = Some (Element 0 ''div'' [] [TextNode 1 ''0123456789abcdefghij''])"
    by (simp add: example_doc_def)
  have w2: "wf lines_doc" by (simp add: wf_def lines_doc_def)
  have p2: "parentNode 2 (root lines_doc) =
      Some (Element 0 ''div'' [] [TextNode 1 ''ab'', TextNode 2 [CHR 0x0A], TextNode 3 ''cd''])"
    by (simp add: lines_doc_def)
  from applyToWholeNode_rule[of example_doc 1 0 "''div''" "[]" "[TextNode 1 ''0123456789abcdefghij'']" "''foo''"] w1 p1
  have a: "applyToWholeNode ''foo'' example_doc 1 =
     Some (\<lparr>root = Element 0 ''div'' [''foo''] [TextNode 1 ''0123456789abcdefghij''], next_id = 2\<rparr>, 0)"
    by (simp add: example_doc_def)
  from applyToWholeNode_rule[of lines_doc 2 0 "''div''" "[]"
      "[TextNode 1 ''ab'', TextNode 2 [CHR 0x0A], TextNode 3 ''cd'']" "''foo''"] w2 p2
  obtain pre node post where
    ks: "[TextNode 1 ''ab'', TextNode 2 [CHR 0x0A], TextNode 3 ''cd''] = pre @ node # post"
    and nid: "node_id node = 2"
    and r: "applyToWholeNode ''foo'' lines_doc 2 =
           Some (\<lparr>root = replace_node 0
                    (Element 0 ''div'' [] (pre @ Element (next_id lines_doc) ''span'' [''foo''] [node] # post))
                    (root lines_doc),
                  next_id = next_id lines_doc + 1\<rparr>, next_id lines_doc)"
    by auto
  from ks nid have "pre = [TextNode 1 ''ab''] \<and> node = TextNode 2 [CHR 0x0A] \<and> post = [TextNode 3 ''cd'']"
    by (auto simp: append_eq_Cons_conv Cons_eq_append_conv)
  with r have "applyToWholeNode ''foo'' lines_doc 2 =
     Some (\<lparr>root = Element 0 ''div'' []
              [TextNode 1 ''ab'', Element 4 ''span'' [''foo''] [TextNode 2 [CHR 0x0A]], TextNode 3 ''cd''],
            next_id = 5\<rparr>, 4)"
    by (simp add: lines_doc_def)
  with a show ?thesis by simp
qed

text \<open>
  Claim C10. With equal start and end offsets \<open>_applyToNode\<close> changes nothing and returns
  no node; a group of two pairs with the same node and the same offset leaves the
  document as it is and contributes an empty list of nodes.
\<close>

theorem equal_offsets_no_change:
  "applyToNode cls st n k k = Some (st, []) \<and> applyToGroup cls st [(n, k), (n, k)] = Some (st, [])"
  by (simp add: applyToNode_def applyToGroup_def)

text \<open>
  Claim C3. One range on the test document: the result has two groups, the second one
  empty, where the claim has one group per range.
\<close>

theorem applyToRanges_extra_group:
  "applyToRanges ''foo'' example_doc [(3, 6)] =
     Some (\<lparr>root = Element 0 ''div'' []
              [TextNode 1 ''012'', Element 2 ''span'' [''foo''] [TextNode 3 ''345''],
               TextNode 4 ''6789abcdefghij''],
            next_id = 5\<rparr>, [[2], []]) \<and>
   map_option (\<lambda>r. length (snd r)) (applyToRanges ''foo'' example_doc [(3, 6)]) = Some 2"
  by (simp add: applyToRanges_def example_doc_def findNodeAndOffsetGroups_def treeWalker_def
        root_last_def applyToGroup_def applyToNode_def Let_def substring_def set_nodeValue_def
        nextSibling_def)




lemma last_of_Cons: "last_of rest (n, int (length v)) = last_of ((n, v) # rest) l"
  by (cases rest) auto

lemma walk_as_pending:
  "walk nodes l ws pos poss f d c =
     (case walk_pending nodes ws pos poss f d c of
        Returned gs \<Rightarrow> gs
      | Searching p ps f' d' c' \<Rightarrow> d' @ [c' @ [last_of nodes l]])"
proof (induction nodes arbitrary: l ws pos poss f d c)
  case Nil
  then show ?case by simp
next
  case (Cons a nodes)
  obtain n v where a: "a = (n, v)" by (cases a)
  show ?case
    unfolding a walk.simps walk_pending.simps Let_def
    by (simp add: Cons.IH last_of_Cons[symmetric] split: scan.splits del: last_of.simps)
qed

text \<open>
  Claim C5, as amended. When the text nodes are exhausted with offsets still pending,
  one pair (the last node visited, the length of its text) is pushed on the current
  group, however many offsets are pending; the function is total, it never raises.
\<close>

theorem pending_offsets_one_pair:
  "selection_positions sels = position # positions \<and>
   walk_pending (treeWalker r) 0 position positions False [] [] = Searching p ps f d c \<longrightarrow>
   findNodeAndOffsetGroups r sels = d @ [c @ [last_visited r]]"
proof
  assume a: "selection_positions sels = position # positions \<and>
   walk_pending (treeWalker r) 0 position positions False [] [] = Searching p ps f d c"
  have "last_of (treeWalker r) (root_last r) = last_visited r"
    by (cases "treeWalker r") (auto simp: last_visited_def)
  with a show "findNodeAndOffsetGroups r sels = d @ [c @ [last_visited r]]"
    by (simp add: findNodeAndOffsetGroups_def walk_as_pending)
qed

theorem pending_offsets_one_pair_witness:
  "selection_positions [(25, 30)] = 25 # [30] \<and>
   walk_pending (treeWalker (root example_doc)) 0 25 [30] False [] [] = Searching 25 [30] False [] [] \<and>
   findNodeAndOffsetGroups (root example_doc) [(25, 30)] = [[(1, 20)]]"
proof -
  have w: "walk_pending (treeWalker (root example_doc)) 0 25 [30] False [] [] = Searching 25 [30] False [] []"
    by (simp add: example_doc_def treeWalker_def)
  have lv: "last_visited (root example_doc) = (1, 20)"
    by (simp add: last_visited_def example_doc_def treeWalker_def)
  from pending_offsets_one_pair[of "[(25, 30)]" 25 "[30]" "root example_doc" 25 "[30]" False "[]" "[]"] w lv
  show ?thesis by simp
qed

text \<open>
  Claim C5 as stated fails: the range (25, 30) on the test document of 20 characters
  leaves two offsets pending, and a single pair is recorded.
\<close>

theorem pending_offsets_counterexample:
  "findNodeAndOffsetGroups (root example_doc) [(25, 30)] = [[(1, 20)]] \<and>
   length (concat (findNodeAndOffsetGroups (root example_doc) [(25, 30)])) <
   length (selection_positions [(25, 30)])"
  by (simp add: findNodeAndOffsetGroups_def example_doc_def treeWalker_def root_last_def)

text \<open>
  Claim C8. With the document passed to the constructor in Node.js, the setup of the
  module's tests, \<open>Node\<close> is not bound, whatever the selector engine. Of the two containers
  with the class \<open>foo\<close>, \<open>clear\<close> handles the last one first: it has a second class, and only
  the class \<open>foo\<close> is removed. The first one has this class only and one text child:
  \<open>clearElement\<close> reads \<open>Node\<close> and raises, the container is not replaced by its child, and
  \<open>clear\<close> returns no count.
\<close>

theorem clear_raises_midway:
  "\<forall>engine.
     querySelectorAll \<lparr>Node_bound = False, selector_engine = engine\<rparr> (''span.'' @ ''foo'')
       (root two_span_doc) = Some [1, 3] \<and>
     clearElement \<lparr>Node_bound = False, selector_engine = engine\<rparr> ''foo'' two_span_doc 3 =
       Some \<lparr>root = Element 0 ''div'' []
                [Element 1 ''span'' [''foo''] [TextNode 2 ''ab''],
                 Element 3 ''span'' [''bar''] [TextNode 4 ''cd'']],
             next_id = 5\<rparr> \<and>
     clearElement \<lparr>Node_bound = False, selector_engine = engine\<rparr> ''foo''
       \<lparr>root = Element 0 ''div'' []
                [Element 1 ''span'' [''foo''] [TextNode 2 ''ab''],
                 Element 3 ''span'' [''bar''] [TextNode 4 ''cd'']],
        next_id = 5\<rparr> 1 = None \<and>
     clear \<lparr>Node_bound = False, selector_engine = engine\<rparr> ''foo'' two_span_doc = None \<and>
     clear \<lparr>Node_bound = True, selector_engine = engine\<rparr> ''foo'' two_span_doc =
       Some (\<lparr>root = Element 0 ''div'' []
                [TextNode 2 ''ab'', Element 3 ''span'' [''bar''] [TextNode 4 ''cd'']],
             next_id = 5\<rparr>, 2)"
  by (simp add: clear_def querySelectorAll_def matching_spans_def two_span_doc_def clearElement_def
        class_attribute_def name_start_def name_char_def Let_def merge_previous_def merge_next_def
        previousSibling_def nextSibling_def set_nodeValue_def)

text \<open>
  Claim C4. In the same setup, \<open>clear\<close> after \<open>applyToRanges\<close> raises on the container that
  \<open>applyToRanges\<close> created, and restores nothing. With \<open>Node\<close> bound it returns the
  document with the text in one text node.
\<close>

theorem clear_after_apply_raises:
  "applyToRanges ''foo'' example_doc [(3, 6)] = Some (styled_doc, [[2], []]) \<and>
   (\<forall>engine. clear \<lparr>Node_bound = False, selector_engine = engine\<rparr> ''foo'' styled_doc = None) \<and>
   (\<forall>engine. clear \<lparr>Node_bound = True, selector_engine = engine\<rparr> ''foo'' styled_doc =
      Some (\<lparr>root = Element 0 ''div'' [] [TextNode 3 ''0123456789abcdefghij''], next_id = 5\<rparr>, 1))"
proof -
  have ap: "applyToRanges ''foo'' example_doc [(3, 6)] = Some (styled_doc, [[2], []])"
    by (simp add: applyToRanges_def example_doc_def styled_doc_def findNodeAndOffsetGroups_def
        treeWalker_def root_last_def applyToGroup_def applyToNode_def Let_def substring_def
        set_nodeValue_def nextSibling_def)
  have c0: "\<forall>engine. clear \<lparr>Node_bound = False, selector_engine = engine\<rparr> ''foo'' styled_doc = None"
    by (simp add: clear_def querySelectorAll_def matching_spans_def styled_doc_def clearElement_def
        class_attribute_def name_start_def name_char_def Let_def)
  have c1: "\<forall>engine. clear \<lparr>Node_bound = True, selector_engine = engine\<rparr> ''foo'' styled_doc =
      Some (\<lparr>root = Element 0 ''div'' [] [TextNode 3 ''0123456789abcdefghij''], next_id = 5\<rparr>, 1)"
    by (simp add: clear_def querySelectorAll_def matching_spans_def styled_doc_def clearElement_def
        class_attribute_def name_start_def name_char_def Let_def merge_previous_def merge_next_def
        previousSibling_def nextSibling_def set_nodeValue_def)
  from ap c0 c1 show ?thesis by blast
qed

text \<open>
  With \<open>Node\<close> bound and a class name that is an identifier, \<open>clear\<close> after
  \<open>applyToRanges\<close> returns for every well-formed document whose elements below the root
  are \<open>span\<close> elements and all ranges with the start at most the end: it returns the number
  of the \<open>span\<close> elements with the class, no container below the root carries the class
  afterwards, the text is the one before \<open>applyToRanges\<close>, and a document with no two
  adjacent text siblings before has none after.
\<close>

lemma clear_after_apply_bound:
  "wf st \<and> spans_below (root st) \<and> (\<forall>x\<in>set textSelections. fst x \<le> snd x) \<and>
   Node_bound env \<and> css_identifier cls \<longrightarrow>
   (\<exists>st1 groups st2 k.
      applyToRanges cls st textSelections = Some (st1, groups) \<and> clear env cls st1 = Some (st2, k) \<and>
      k = length (matching_spans cls (root st1)) \<and>
      carriers cls (root st2) = [] \<and> textContent (root st2) = textContent (root st) \<and>
      (normalized (root st) \<longrightarrow> normalized (root st2)))"
proof
  assume a: "wf st \<and> spans_below (root st) \<and> (\<forall>x\<in>set textSelections. fst x \<le> snd x) \<and>
   Node_bound env \<and> css_identifier cls"
  then have w: "wf st" and sp: "spans_below (root st)"
    and le: "\<forall>x\<in>set textSelections. fst x \<le> snd x"
    and nb: "Node_bound env" and ci: "css_identifier cls" by auto
  let ?W = "fst ` set (text_nodes (root st))"
  let ?T = "textContent (root st)"
  let ?N = "normalized (root st)"
  have k: "keeps ?W ?T True ?N st" using w sp by (simp add: keeps_def)
  from w have d: "distinct (ids (root st))" and nt: "\<not> is_text (root st)" by (auto simp: wf_def)
  have ok: "\<forall>g\<in>set (rev (findNodeAndOffsetGroups (root st) textSelections)). group_ok ?W g"
    using groups_ok[OF d nt le] by simp
  have "\<exists>st1 groups. applyToRanges cls st textSelections = Some (st1, groups) \<and> keeps ?W ?T True ?N st1"
  proof (cases "length textSelections = 0")
    case True
    with k show ?thesis by (simp add: applyToRanges_def)
  next
    case False
    from groups_loop_keeps[OF k ok, of cls "[]"] obtain st' r where
      "groups_loop cls (rev (findNodeAndOffsetGroups (root st) textSelections)) st [] = Some (st', r)"
      "keeps ?W ?T True ?N st'" by blast
    with False show ?thesis by (simp add: applyToRanges_def)
  qed
  then obtain st1 groups where ap: "applyToRanges cls st textSelections = Some (st1, groups)"
    and k1: "keeps ?W ?T True ?N st1" by blast
  from k1 have w1: "wf st1" and t1: "textContent (root st1) = ?T" and s1: "spans_below (root st1)"
    and n1: "?N \<longrightarrow> normalized (root st1)" by (auto simp: keeps_def)
  from clear_effect[OF w1 nb ci] s1 obtain st2 where
    cl: "clear env cls st1 = Some (st2, length (matching_spans cls (root st1)))"
    and t2: "textContent (root st2) = textContent (root st1)"
    and c2: "carriers cls (root st2) = []"
    and n2: "normalized (root st1) \<longrightarrow> normalized (root st2)" by blast
  from ap cl c2 t1 t2 n1 n2
  show "\<exists>st1 groups st2 k.
      applyToRanges cls st textSelections = Some (st1, groups) \<and> clear env cls st1 = Some (st2, k) \<and>
      k = length (matching_spans cls (root st1)) \<and>
      carriers cls (root st2) = [] \<and> textContent (root st2) = textContent (root st) \<and>
      (normalized (root st) \<longrightarrow> normalized (root st2))"
    by auto
qed


end
